theory Spec2Isabelle
  imports Main "HOL-Library.Multiset"
begin

text \<open>
  A verification development for the location populator \<^verbatim>\<open>src/index.js\<close>: a
  Node script that reads the rows of a CSV file, sorts them by administrative level and
  posts one location per row to a registry service. The first half of the theory embeds
  the script, function by function and under the script's names; the second half states
  and proves the properties of the loader, the sequencer and the publisher.
\<close>

section \<open>Strings of the script\<close>

text \<open>
  The script handles JavaScript strings. They are modelled by \<^typ>\<open>string\<close>, one
  \<^typ>\<open>char\<close> per code unit, so the development covers the strings whose code units
  lie below 256. On these:
  \<^item> \<^verbatim>\<open>String.prototype.toUpperCase\<close> maps a..z and the letters U+00E0..U+00FE
    (without the division sign U+00F7) to the code unit 32 below, and the sharp s U+00DF
    to the two letters SS. The micro sign U+00B5 and y with diaeresis U+00FF have
    upper-case forms above 255 (U+039C and U+0178), which a \<^typ>\<open>char\<close> cannot hold:
    \<open>upper_stays_8bit\<close> marks the strings without these two, and only for them does
    \<open>toUpperCase\<close> below give what the engine gives.
  \<^item> \<^verbatim>\<open>String.prototype.trim\<close> removes TAB, LF, VT, FF, CR, SPACE and the no-break
    space U+00A0 at both ends.
  \<^item> \<^verbatim>\<open>encodeURIComponent\<close> keeps the unreserved characters and writes every other
    character as the bytes of its UTF-8 form, each byte as a percent sign and two
    upper-case hexadecimal digits: one byte below 128, two bytes from 128 to 255.
\<close>

definition upper_unit :: "char \<Rightarrow> string" where
  "upper_unit c =
     (let n = (of_char c :: nat) in
        if 97 \<le> n \<and> n \<le> 122 then [char_of (n - 32)]
        else if n = 223 then ''SS''
        else if 224 \<le> n \<and> n \<le> 254 \<and> n \<noteq> 247 then [char_of (n - 32)]
        else [c])"

definition toUpperCase :: "string \<Rightarrow> string" where
  "toUpperCase s = concat (map upper_unit s)"

definition upper_stays_8bit :: "string \<Rightarrow> bool" where
  "upper_stays_8bit s =
     list_all (\<lambda>c. (of_char c :: nat) \<noteq> 181 \<and> (of_char c :: nat) \<noteq> 255) s"

definition is_whitespace :: "char \<Rightarrow> bool" where
  "is_whitespace c = ((of_char c :: nat) \<in> {9, 10, 11, 12, 13, 32, 160})"

definition trim :: "string \<Rightarrow> string" where
  "trim s = rev (dropWhile is_whitespace (rev (dropWhile is_whitespace s)))"

definition hex_digit :: "nat \<Rightarrow> char" where
  "hex_digit n = (if n < 10 then char_of (48 + n) else char_of (55 + n))"

definition hex_value :: "char \<Rightarrow> nat" where
  "hex_value c = (let n = (of_char c :: nat) in if n < 58 then n - 48 else n - 55)"

definition uri_unreserved :: "char \<Rightarrow> bool" where
  "uri_unreserved c =
     (let n = (of_char c :: nat) in
        (65 \<le> n \<and> n \<le> 90) \<or> (97 \<le> n \<and> n \<le> 122) \<or> (48 \<le> n \<and> n \<le> 57)
        \<or> c \<in> set ''-_.!~*'()'')"

definition percent :: "nat \<Rightarrow> string" where
  "percent b = [CHR ''%'', hex_digit (b div 16), hex_digit (b mod 16)]"

definition encode_char :: "char \<Rightarrow> string" where
  "encode_char c =
     (let n = (of_char c :: nat) in
        if uri_unreserved c then [c]
        else if n < 128 then percent n
        else percent (192 + n div 64) @ percent (128 + n mod 64))"

definition encodeURIComponent :: "string \<Rightarrow> string" where
  "encodeURIComponent s = concat (map encode_char s)"

text \<open>
  The inverse reading of a query value, as the receiving service decodes it: every
  percent escape gives a byte, and the bytes are read as UTF-8, one byte below 128 and
  two bytes for the code units from 128 to 255. \<open>octets_of\<close> names the bytes that
  \<^const>\<open>encode_char\<close> writes for a character.
\<close>

datatype octet = Literal char | Escaped nat

fun percent_decode :: "string \<Rightarrow> octet list" where
  "percent_decode [] = []"
| "percent_decode (c # h # l # rest) =
     (if c = CHR ''%'' then Escaped (hex_value h * 16 + hex_value l) # percent_decode rest
      else Literal c # percent_decode (h # l # rest))"
| "percent_decode (c # rest) = Literal c # percent_decode rest"

fun utf8_decode :: "octet list \<Rightarrow> string" where
  "utf8_decode [] = []"
| "utf8_decode (Literal c # rest) = c # utf8_decode rest"
| "utf8_decode (Escaped b # Escaped b' # rest) =
     (if b < 128 then char_of b # utf8_decode (Escaped b' # rest)
      else char_of ((b - 192) * 64 + (b' - 128)) # utf8_decode rest)"
| "utf8_decode (Escaped b # rest) = char_of b # utf8_decode rest"

definition decodeURIComponent :: "string \<Rightarrow> string" where
  "decodeURIComponent s = utf8_decode (percent_decode s)"

definition octets_of :: "char \<Rightarrow> octet list" where
  "octets_of c =
     (let n = (of_char c :: nat) in
        if uri_unreserved c then [Literal c]
        else if n < 128 then [Escaped n]
        else [Escaped (192 + n div 64), Escaped (128 + n mod 64)])"

section \<open>Location objects and errors\<close>

text \<open>
  A row of the CSV file is a JavaScript object whose own properties are the header names
  and whose values are strings. It is modelled by the list of its properties in insertion
  order; reading a property that the object lacks gives \<^verbatim>\<open>undefined\<close>, which is
  \<^const>\<open>None\<close> here.
\<close>

type_synonym location = "(string \<times> string) list"

definition get :: "location \<Rightarrow> string \<Rightarrow> string option" where
  "get loc k = map_of loc k"

datatype axios_failure =
    ServerRejected nat string
  | NoResponse string
  | RequestSetupFailed string

datatype js_error =
    TypeError
  | FileError string
  | ParserError string
  | AxiosError axios_failure

text \<open>
  \<^verbatim>\<open>v.toUpperCase()\<close>: calling the method on \<^verbatim>\<open>undefined\<close> throws a TypeError.
\<close>

definition call_toUpperCase :: "string option \<Rightarrow> js_error + string" where
  "call_toUpperCase v = (case v of None \<Rightarrow> Inl TypeError | Some s \<Rightarrow> Inr (toUpperCase s))"

section \<open>The hierarchy sequencer\<close>

definition locationTypesOrder :: "string list" where
  "locationTypesOrder = [''PROVINCE'', ''DISTRICT'', ''SECTOR'', ''CELL'', ''VILLAGE'']"

text \<open>\<^verbatim>\<open>Array.prototype.indexOf\<close>: the first index of the element, or -1.\<close>

fun indexOf :: "'a list \<Rightarrow> 'a \<Rightarrow> int" where
  "indexOf [] x = - 1"
| "indexOf (y # ys) x =
     (if y = x then 0 else (let i = indexOf ys x in if i < 0 then - 1 else i + 1))"

text \<open>The body of the comparator's \<^verbatim>\<open>try\<close> block.\<close>

definition compare_levels :: "location \<Rightarrow> location \<Rightarrow> js_error + int" where
  "compare_levels a b =
     (case call_toUpperCase (get a ''Level'') of
        Inl e \<Rightarrow> Inl e
      | Inr ua \<Rightarrow>
          (case call_toUpperCase (get b ''Level'') of
             Inl e \<Rightarrow> Inl e
           | Inr ub \<Rightarrow> Inr (indexOf locationTypesOrder ua - indexOf locationTypesOrder ub)))"

text \<open>
  The comparator: its \<^verbatim>\<open>catch\<close> block prints the two objects and the error and
  returns nothing, so the call yields \<^verbatim>\<open>undefined\<close> (\<^const>\<open>None\<close>). The two
  \<^verbatim>\<open>console.log\<close> lines of the \<^verbatim>\<open>catch\<close> block are left out of the trace: how
  often the comparator is called is the engine's business.
\<close>

definition comparator :: "location \<Rightarrow> location \<Rightarrow> js_error + int option" where
  "comparator a b =
     (case compare_levels a b of Inr v \<Rightarrow> Inr (Some v) | Inl e \<Rightarrow> Inr None)"

text \<open>
  \<^verbatim>\<open>Array.prototype.sort\<close> with a comparator. The language standard has the sort
  call the comparator, pass on what it throws, read \<^verbatim>\<open>undefined\<close> (NaN as a number)
  as 0, and it requires a stable sort. For a comparator that orders the elements
  consistently every conforming engine returns the same array, the stable sort; for any
  other comparator the standard leaves the order to the engine.

  The script runs on Node, whose engine V8 sorts as follows. An array of fewer than two
  elements is returned as it is. Otherwise \<^verbatim>\<open>CountAndMakeRun\<close> compares the second
  element with the first: a negative result starts a strictly descending run, any other
  result an ascending one; the run is extended while each element compared with its
  predecessor keeps the direction, and a descending run is reversed. The elements after
  the run are then inserted one by one by \<^verbatim>\<open>BinaryInsertionSort\<close>: a binary search
  over the sorted part, going left on a negative result and right otherwise, finds the
  place of the pivot. For an array of fewer than 64 elements this is all V8 does. From
  64 elements on V8 cuts the array into several such runs and merges them, which the model
  does not follow; there the functions below give V8's result whenever the comparator is
  consistent (the result is then the stable sort), and that is the case whenever every
  record has a \<^verbatim>\<open>Level\<close>.
\<close>

definition SortCompare ::
  "('a \<Rightarrow> 'a \<Rightarrow> js_error + int option) \<Rightarrow> 'a \<Rightarrow> 'a \<Rightarrow> js_error + int" where
  "SortCompare cmp x y =
     (case cmp x y of Inl e \<Rightarrow> Inl e | Inr None \<Rightarrow> Inr 0 | Inr (Some v) \<Rightarrow> Inr v)"

text \<open>How many elements after \<open>previous\<close> continue the run.\<close>

fun run_tail ::
  "('a \<Rightarrow> 'a \<Rightarrow> js_error + int option) \<Rightarrow> bool \<Rightarrow> 'a \<Rightarrow> 'a list \<Rightarrow> js_error + nat" where
  "run_tail cmp descending previous [] = Inr 0"
| "run_tail cmp descending previous (current # rest) =
     (case SortCompare cmp current previous of
        Inl e \<Rightarrow> Inl e
      | Inr order \<Rightarrow>
          if (if descending then 0 \<le> order else order < 0) then Inr 0
          else (case run_tail cmp descending current rest of
                  Inl e \<Rightarrow> Inl e
                | Inr n \<Rightarrow> Inr (Suc n)))"

text \<open>The first run, made ascending, and the elements after it.\<close>

fun CountAndMakeRun ::
  "('a \<Rightarrow> 'a \<Rightarrow> js_error + int option) \<Rightarrow> 'a list \<Rightarrow> js_error + 'a list \<times> 'a list" where
  "CountAndMakeRun cmp (low # high # rest) =
     (case SortCompare cmp high low of
        Inl e \<Rightarrow> Inl e
      | Inr order \<Rightarrow>
          (case run_tail cmp (order < 0) high rest of
             Inl e \<Rightarrow> Inl e
           | Inr n \<Rightarrow>
               Inr (if order < 0 then rev (take (n + 2) (low # high # rest))
                    else take (n + 2) (low # high # rest),
                    drop n rest)))"
| "CountAndMakeRun cmp work = Inr (work, [])"

function binary_search ::
  "('a \<Rightarrow> 'a \<Rightarrow> js_error + int option) \<Rightarrow> 'a \<Rightarrow> 'a list \<Rightarrow> nat \<Rightarrow> nat \<Rightarrow> js_error + nat" where
  "binary_search cmp pivot work left right =
     (if left < right then
        (case SortCompare cmp pivot (work ! (left + (right - left) div 2)) of
           Inl e \<Rightarrow> Inl e
         | Inr order \<Rightarrow>
             if order < 0 then binary_search cmp pivot work left (left + (right - left) div 2)
             else binary_search cmp pivot work (left + (right - left) div 2 + 1) right)
      else Inr left)"
  by pat_completeness auto
termination
  by (relation "measure (\<lambda>(cmp, pivot, work, left, right). right - left)") auto

declare binary_search.simps [simp del]

fun BinaryInsertionSort ::
  "('a \<Rightarrow> 'a \<Rightarrow> js_error + int option) \<Rightarrow> 'a list \<Rightarrow> 'a list \<Rightarrow> js_error + 'a list" where
  "BinaryInsertionSort cmp work [] = Inr work"
| "BinaryInsertionSort cmp work (pivot # rest) =
     (case binary_search cmp pivot work 0 (length work) of
        Inl e \<Rightarrow> Inl e
      | Inr left \<Rightarrow> BinaryInsertionSort cmp (take left work @ pivot # drop left work) rest)"

definition array_sort ::
  "('a \<Rightarrow> 'a \<Rightarrow> js_error + int option) \<Rightarrow> 'a list \<Rightarrow> js_error + 'a list" where
  "array_sort cmp xs =
     (if length xs < 2 then Inr xs
      else (case CountAndMakeRun cmp xs of
              Inl e \<Rightarrow> Inl e
            | Inr (run, rest) \<Rightarrow> BinaryInsertionSort cmp run rest))"

definition sequencer :: "location list \<Rightarrow> js_error + location list" where
  "sequencer locationsData = array_sort comparator locationsData"

text \<open>
  The rank of a record, as the comparator computes it: the index of the upper-cased
  level in \<^const>\<open>locationTypesOrder\<close>; a record without a \<^verbatim>\<open>Level\<close> property has
  none.
\<close>

definition level_rank :: "location \<Rightarrow> int option" where
  "level_rank loc =
     (case get loc ''Level'' of
        None \<Rightarrow> None
      | Some l \<Rightarrow> Some (indexOf locationTypesOrder (toUpperCase l)))"

definition recognized :: "location \<Rightarrow> bool" where
  "recognized loc =
     (case get loc ''Level'' of
        None \<Rightarrow> False
      | Some l \<Rightarrow> toUpperCase l \<in> set locationTypesOrder)"

text \<open>
  What the sort reads off the comparator for two records, and the same sort on such a
  total reading; \<open>sequencer_pure\<close> below shows that the sequencer computes exactly
  this.
\<close>

definition rank_difference :: "location \<Rightarrow> location \<Rightarrow> int" where
  "rank_difference a b =
     (case level_rank a of
        None \<Rightarrow> 0
      | Some i \<Rightarrow> (case level_rank b of None \<Rightarrow> 0 | Some j \<Rightarrow> i - j))"

fun run_more :: "('a \<Rightarrow> 'a \<Rightarrow> int) \<Rightarrow> bool \<Rightarrow> 'a \<Rightarrow> 'a list \<Rightarrow> nat" where
  "run_more f descending previous [] = 0"
| "run_more f descending previous (current # rest) =
     (if (if descending then 0 \<le> f current previous else f current previous < 0) then 0
      else Suc (run_more f descending current rest))"

function search_by :: "('a \<Rightarrow> 'a \<Rightarrow> int) \<Rightarrow> 'a \<Rightarrow> 'a list \<Rightarrow> nat \<Rightarrow> nat \<Rightarrow> nat" where
  "search_by f pivot work left right =
     (if left < right then
        (if f pivot (work ! (left + (right - left) div 2)) < 0
         then search_by f pivot work left (left + (right - left) div 2)
         else search_by f pivot work (left + (right - left) div 2 + 1) right)
      else left)"
  by pat_completeness auto
termination
  by (relation "measure (\<lambda>(f, pivot, work, left, right). right - left)") auto

declare search_by.simps [simp del]

fun insert_by :: "('a \<Rightarrow> 'a \<Rightarrow> int) \<Rightarrow> 'a list \<Rightarrow> 'a list \<Rightarrow> 'a list" where
  "insert_by f work [] = work"
| "insert_by f work (pivot # rest) =
     insert_by f (take (search_by f pivot work 0 (length work)) work
                  @ pivot # drop (search_by f pivot work 0 (length work)) work) rest"

fun sort_by :: "('a \<Rightarrow> 'a \<Rightarrow> int) \<Rightarrow> 'a list \<Rightarrow> 'a list" where
  "sort_by f (low # high # rest) =
     insert_by f
       (if f high low < 0
        then rev (take (run_more f True high rest + 2) (low # high # rest))
        else take (run_more f False high rest + 2) (low # high # rest))
       (drop (run_more f (f high low < 0) high rest) rest)"
| "sort_by f work = work"

section \<open>The location publisher\<close>

record payload =
  locationCode :: "string option"
  locationType :: string
  locationName :: "string option"

record request =
  url :: string
  body :: payload

datatype log_line =
    Record location
  | ReadCount nat
  | ReadError string
  | Locations "location list"
  | Starting
  | Attempting location
  | Success location string
  | Rejected location nat string
  | Unanswered location string
  | SetupFailed location string
  | Finished
  | NoData
  | FailedRun js_error

datatype event = Log log_line | Post request | Delay nat

definition API_BASE_URL :: string where
  "API_BASE_URL = ''http://localhost:8081/api/hec/location''"

text \<open>
  The head of the loop body: the payload and the address. The payload is built first, and
  \<^verbatim>\<open>Level.toUpperCase()\<close> stands before the \<^verbatim>\<open>try\<close> of the network call.
  \<^verbatim>\<open>ParentCode && ParentCode.length > 0\<close> holds for a present, non-empty string.
\<close>

definition build_request :: "location \<Rightarrow> js_error + request" where
  "build_request loc =
     (case call_toUpperCase (get loc ''Level'') of
        Inl e \<Rightarrow> Inl e
      | Inr t \<Rightarrow>
          Inr \<lparr>url = API_BASE_URL @ ''/saveLocation'' @
                 (case get loc ''ParentCode'' of
                    None \<Rightarrow> []
                  | Some pc \<Rightarrow>
                      if length pc > 0 then ''?parentCode='' @ encodeURIComponent pc else []),
               body = \<lparr>locationCode = get loc ''LocationCode'',
                        locationType = t,
                        locationName = get loc ''LocationName''\<rparr>\<rparr>)"

text \<open>
  The remote service: what \<^verbatim>\<open>axios.post\<close> gives for the request sent as call
  number \<open>n\<close> of the run, the response data or the error it throws.
\<close>

type_synonym network = "nat \<Rightarrow> request \<Rightarrow> axios_failure + string"

text \<open>The \<^verbatim>\<open>try\<close>/\<^verbatim>\<open>catch\<close> around the network call, with its three branches.\<close>

definition attempt :: "network \<Rightarrow> nat \<Rightarrow> location \<Rightarrow> request \<Rightarrow> event list" where
  "attempt net n loc req =
     [Log (Attempting loc), Post req,
      Log (case net n req of
             Inr data \<Rightarrow> Success loc data
           | Inl (ServerRejected status data) \<Rightarrow> Rejected loc status data
           | Inl (NoResponse msg) \<Rightarrow> Unanswered loc msg
           | Inl (RequestSetupFailed msg) \<Rightarrow> SetupFailed loc msg)]"

fun publish :: "network \<Rightarrow> nat \<Rightarrow> location list \<Rightarrow> event list \<times> (js_error + unit)" where
  "publish net n [] = ([], Inr ())"
| "publish net n (loc # rest) =
     (case build_request loc of
        Inl e \<Rightarrow> ([], Inl e)
      | Inr req \<Rightarrow>
          (case publish net (Suc n) rest of
             (evs, r) \<Rightarrow> (attempt net n loc req @ [Delay 100] @ evs, r)))"

definition populateLocations ::
  "network \<Rightarrow> location list \<Rightarrow> event list \<times> (js_error + unit)" where
  "populateLocations net locationsData =
     (case sequencer locationsData of
        Inl e \<Rightarrow> ([], Inl e)
      | Inr ordered \<Rightarrow>
          (case publish net 0 ordered of
             (evs, Inl e) \<Rightarrow> (Log Starting # evs, Inl e)
           | (evs, Inr u) \<Rightarrow> (Log Starting # evs @ [Log Finished], Inr ())))"

section \<open>The record loader and the main function\<close>

text \<open>
  The file system and the CSV parser are outside the script. A run sees one of three
  things: the parser emits its rows and ends; the parser emits rows and then an
  \<^verbatim>\<open>error\<close> event; or the file stream made by \<^verbatim>\<open>fs.createReadStream\<close> fails
  (the file cannot be opened or read), after the parser has emitted the rows of what was
  read before.
\<close>

datatype csv_source =
    Complete "location list"
  | ParserFailed "location list" string
  | FileFailed "location list" string

text \<open>The \<^verbatim>\<open>data\<close> handler: every value of the row is replaced by its trimmed form.\<close>

definition on_data :: "location \<Rightarrow> location" where
  "on_data data = map (\<lambda>(key, v). (key, trim v)) data"

text \<open>
  The two streams of \<^verbatim>\<open>readCsvFile\<close>: the file stream made by
  \<^verbatim>\<open>fs.createReadStream\<close> and the parser stream it is piped into. The handlers
  \<^verbatim>\<open>data\<close>, \<^verbatim>\<open>end\<close> and \<^verbatim>\<open>error\<close> are chained on the value of
  \<^verbatim>\<open>.pipe(...)\<close>, which is the parser stream, and \<^verbatim>\<open>pipe\<close> does not forward
  the errors of its source: the script has an \<^verbatim>\<open>error\<close> listener on the parser
  stream only.
\<close>

datatype stream = FileStream | ParserStream

definition has_error_listener :: "stream \<Rightarrow> bool" where
  "has_error_listener s = (case s of FileStream \<Rightarrow> False | ParserStream \<Rightarrow> True)"

text \<open>
  How the promise of \<^verbatim>\<open>readCsvFile\<close> ends: resolved with the records, rejected by
  the \<^verbatim>\<open>error\<close> handler, or never settled because an \<^verbatim>\<open>error\<close> event found
  no listener. Node throws such an event as an uncaught exception, which stops the
  process.
\<close>

datatype load_end =
    Resolved "location list"
  | Refused js_error
  | Uncaught js_error

definition emit_error :: "stream \<Rightarrow> js_error \<Rightarrow> string \<Rightarrow> event list \<times> load_end" where
  "emit_error s e msg =
     (if has_error_listener s then ([Log (ReadError msg)], Refused e) else ([], Uncaught e))"

definition readCsvFile :: "csv_source \<Rightarrow> event list \<times> load_end" where
  "readCsvFile src =
     (case src of
        Complete rows \<Rightarrow>
          (map (\<lambda>data. Log (Record (on_data data))) rows @ [Log (ReadCount (length rows))],
           Resolved (map on_data rows))
      | ParserFailed rows msg \<Rightarrow>
          (case emit_error ParserStream (ParserError msg) msg of
             (evs, r) \<Rightarrow> (map (\<lambda>data. Log (Record (on_data data))) rows @ evs, r))
      | FileFailed rows msg \<Rightarrow>
          (case emit_error FileStream (FileError msg) msg of
             (evs, r) \<Rightarrow> (map (\<lambda>data. Log (Record (on_data data))) rows @ evs, r)))"

text \<open>
  The end of the process: \<^verbatim>\<open>main\<close> ran to its end (exit status 0, the script never
  sets another), or an uncaught exception stopped the process (exit status 1).
\<close>

datatype ending = Completed | Crashed js_error

definition exit_status :: "ending \<Rightarrow> nat" where
  "exit_status e = (case e of Completed \<Rightarrow> 0 | Crashed err \<Rightarrow> 1)"

definition main :: "csv_source \<Rightarrow> network \<Rightarrow> event list \<times> ending" where
  "main src net =
     (case readCsvFile src of
        (evs, Uncaught e) \<Rightarrow> (evs, Crashed e)
      | (evs, Refused e) \<Rightarrow> (evs @ [Log (FailedRun e)], Completed)
      | (evs, Resolved locations) \<Rightarrow>
          (if length locations > 0 then
             (case populateLocations net locations of
                (evs', Inl e) \<Rightarrow>
                  (evs @ [Log (Locations locations)] @ evs' @ [Log (FailedRun e)], Completed)
              | (evs', Inr u) \<Rightarrow> (evs @ [Log (Locations locations)] @ evs', Completed))
           else (evs @ [Log (Locations locations), Log NoData], Completed)))"

text \<open>The requests a trace sends, in order.\<close>

fun posts :: "event list \<Rightarrow> request list" where
  "posts [] = []"
| "posts (Post req # evs) = req # posts evs"
| "posts (ev # evs) = posts evs"

text \<open>
  The value of the \<^verbatim>\<open>parentCode\<close> parameter of an address, read the way a server
  reads a query string: the text after the first \<^verbatim>\<open>?\<close>, up to the first \<^verbatim>\<open>&\<close>,
  split at its first \<^verbatim>\<open>=\<close>, the value percent-decoded.
\<close>

definition parent_parameter :: "string \<Rightarrow> string option" where
  "parent_parameter address =
     (case dropWhile (\<lambda>c. c \<noteq> CHR ''?'') address of
        [] \<Rightarrow> None
      | q # query \<Rightarrow>
          (let pair = takeWhile (\<lambda>c. c \<noteq> CHR ''&'') query;
               name = takeWhile (\<lambda>c. c \<noteq> CHR ''='') pair;
               val = drop 1 (dropWhile (\<lambda>c. c \<noteq> CHR ''='') pair)
           in if name = ''parentCode'' then Some (decodeURIComponent val) else None))"

section \<open>Example rows\<close>

abbreviation kigali :: location where
  "kigali \<equiv> [(''Level'', ''province''), (''LocationCode'', ''RW01''),
              (''LocationName'', ''Kigali''), (''ParentCode'', [])]"

abbreviation nyarugenge :: location where
  "nyarugenge \<equiv> [(''Level'', ''district''), (''LocationCode'', ''RW0101''),
                  (''LocationName'', ''Nyarugenge''), (''ParentCode'', ''RW01'')]"

abbreviation gasabo :: location where
  "gasabo \<equiv> [(''Level'', ''District''), (''LocationCode'', ''RW0102''),
              (''LocationName'', ''Gasabo''), (''ParentCode'', ''RW01'')]"

abbreviation southern :: location where
  "southern \<equiv> [(''Level'', ''province''), (''LocationCode'', ''RW02''),
                (''LocationName'', ''Southern''), (''ParentCode'', [])]"

abbreviation western :: location where
  "western \<equiv> [(''Level'', ''province''), (''LocationCode'', ''RW03''),
               (''LocationName'', ''Western''), (''ParentCode'', [])]"

abbreviation northern :: location where
  "northern \<equiv> [(''Level'', ''province''), (''LocationCode'', ''RW04''),
                (''LocationName'', ''Northern''), (''ParentCode'', [])]"

abbreviation eastern :: location where
  "eastern \<equiv> [(''Level'', ''province''), (''LocationCode'', ''RW05''),
               (''LocationName'', ''Eastern''), (''ParentCode'', [])]"

abbreviation township :: location where
  "township \<equiv> [(''Level'', ''town''), (''LocationCode'', ''T1''),
                (''LocationName'', ''Elsewhere''), (''ParentCode'', ''RW01'')]"

text \<open>The object of a row that has no \<^verbatim>\<open>Level\<close> cell: here the empty object.\<close>

abbreviation blank_row :: location where
  "blank_row \<equiv> []"

text \<open>A service that answers every request with status 503.\<close>

definition unavailable :: network where
  "unavailable n req = Inl (ServerRejected 503 ''Service Unavailable'')"

section \<open>The sequencer never raises and sorts as the engine does\<close>

lemma SortCompare_comparator: "SortCompare comparator a b = Inr (rank_difference a b)"
  by (simp add: SortCompare_def comparator_def compare_levels_def call_toUpperCase_def
      rank_difference_def level_rank_def split: option.splits)

lemma run_tail_pure:
  assumes "\<And>a b. SortCompare cmp a b = Inr (f a b)"
  shows "run_tail cmp d p xs = Inr (run_more f d p xs)"
  by (induction xs arbitrary: p) (simp_all add: assms)

lemma binary_search_pure:
  assumes "\<And>a b. SortCompare cmp a b = Inr (f a b)"
  shows "binary_search cmp pivot work left right = Inr (search_by f pivot work left right)"
  using assms
proof (induction f pivot work left right rule: search_by.induct)
  case (1 f pivot work left right)
  let ?mid = "left + (right - left) div 2"
  note sc = "1.prems"
  show ?case
  proof (cases "left < right")
    case True
    show ?thesis
    proof (cases "f pivot (work ! ?mid) < 0")
      case neg: True
      have "binary_search cmp pivot work left right = binary_search cmp pivot work left ?mid"
        using True neg by (subst binary_search.simps) (simp add: sc)
      moreover have "search_by f pivot work left right = search_by f pivot work left ?mid"
        using True neg by (subst search_by.simps) simp
      ultimately show ?thesis using "1.IH"(1) [OF True neg sc] by simp
    next
      case nonneg: False
      have "binary_search cmp pivot work left right = binary_search cmp pivot work (?mid + 1) right"
        using True nonneg by (subst binary_search.simps) (simp add: sc)
      moreover have "search_by f pivot work left right = search_by f pivot work (?mid + 1) right"
        using True nonneg by (subst search_by.simps) simp
      ultimately show ?thesis using "1.IH"(2) [OF True nonneg sc] by simp
    qed
  next
    case False
    have "binary_search cmp pivot work left right = Inr left"
      using False by (subst binary_search.simps) simp
    moreover have "search_by f pivot work left right = left"
      using False by (subst search_by.simps) simp
    ultimately show ?thesis by simp
  qed
qed

lemma BinaryInsertionSort_pure:
  assumes "\<And>a b. SortCompare cmp a b = Inr (f a b)"
  shows "BinaryInsertionSort cmp work rest = Inr (insert_by f work rest)"
  by (induction rest arbitrary: work) (simp_all add: binary_search_pure [OF assms])

lemma two_or_fewer:
  obtains "xs = []" | x where "xs = [x]" | low high rest where "xs = low # high # rest"
  by (cases xs; cases "tl xs") auto

lemma array_sort_pure:
  assumes "\<And>a b. SortCompare cmp a b = Inr (f a b)"
  shows "array_sort cmp xs = Inr (sort_by f xs)"
proof (cases xs rule: two_or_fewer)
  case (3 low high rest)
  then show ?thesis
    by (simp add: array_sort_def assms run_tail_pure [OF assms]
        BinaryInsertionSort_pure [OF assms])
qed (simp_all add: array_sort_def)

lemma sequencer_pure: "sequencer batch = Inr (sort_by rank_difference batch)"
  unfolding sequencer_def by (rule array_sort_pure) (rule SortCompare_comparator)

subsection \<open>Permutation\<close>

lemma mset_take_drop: "mset (take k work) + mset (drop k work) = mset work"
  by (metis append_take_drop_id mset_append)

lemma mset_insert_by: "mset (insert_by f work rest) = mset work + mset rest"
proof (induction rest arbitrary: work)
  case Nil
  show ?case by simp
next
  case (Cons pivot rest)
  let ?k = "search_by f pivot work 0 (length work)"
  have "mset (take ?k work @ pivot # drop ?k work) = add_mset pivot (mset work)"
    by (simp add: mset_take_drop)
  with Cons.IH [of "take ?k work @ pivot # drop ?k work"] show ?case by simp
qed

lemma run_more_le: "run_more f d p xs \<le> length xs"
  by (induction xs arbitrary: p) simp_all

lemma mset_sort_by: "mset (sort_by f xs) = mset xs"
proof (cases "(f, xs)" rule: sort_by.cases)
  case (1 f' low high rest)
  let ?n = "run_more f (f high low < 0) high rest"
  have "mset (take (?n + 2) (low # high # rest)) + mset (drop ?n rest) = mset (low # high # rest)"
    by (simp add: mset_take_drop)
  with 1 show ?thesis by (auto simp: mset_insert_by)
qed simp_all

lemma set_sort_by: "set (sort_by f xs) = set xs"
  using mset_sort_by [of f xs] by (metis set_mset_mset)

subsection \<open>Where the binary search stops\<close>

lemma search_by_bounds:
  "left \<le> right \<Longrightarrow> left \<le> search_by f pivot work left right \<and> search_by f pivot work left right \<le> right"
proof (induction f pivot work left right rule: search_by.induct)
  case (1 f pivot work left right)
  show ?case
  proof (cases "left < right")
    case True
    let ?mid = "left + (right - left) div 2"
    from True have m: "left \<le> ?mid" "?mid < right" by auto
    show ?thesis
    proof (cases "f pivot (work ! ?mid) < 0")
      case neg: True
      with True 1(1) m have "left \<le> search_by f pivot work left ?mid \<and> search_by f pivot work left ?mid \<le> ?mid"
        by simp
      with True neg m show ?thesis by (subst (1 2) search_by.simps) auto
    next
      case nonneg: False
      with True 1(2) m have "?mid + 1 \<le> search_by f pivot work (?mid + 1) right
          \<and> search_by f pivot work (?mid + 1) right \<le> right"
        by simp
      with True nonneg m show ?thesis by (subst (1 2) search_by.simps) auto
    qed
  next
    case False
    with 1(3) show ?thesis by (subst (1 2) search_by.simps) simp
  qed
qed

lemma search_by_neighbours:
  "left \<le> right \<Longrightarrow>
   (search_by f pivot work left right = left
      \<or> 0 \<le> f pivot (work ! (search_by f pivot work left right - 1)))
   \<and> (search_by f pivot work left right = right
      \<or> f pivot (work ! search_by f pivot work left right) < 0)"
proof (induction f pivot work left right rule: search_by.induct)
  case (1 f pivot work left right)
  show ?case
  proof (cases "left < right")
    case True
    let ?mid = "left + (right - left) div 2"
    from True have m: "left \<le> ?mid" "?mid < right" by auto
    show ?thesis
    proof (cases "f pivot (work ! ?mid) < 0")
      case neg: True
      let ?k = "search_by f pivot work left ?mid"
      from True neg 1(1) m have IH: "(?k = left \<or> 0 \<le> f pivot (work ! (?k - 1)))
          \<and> (?k = ?mid \<or> f pivot (work ! ?k) < 0)"
        by simp
      have eq: "search_by f pivot work left right = ?k"
        using True neg by (subst search_by.simps) simp
      from IH neg have "(?k = left \<or> 0 \<le> f pivot (work ! (?k - 1)))
          \<and> (?k = right \<or> f pivot (work ! ?k) < 0)"
        by auto
      then show ?thesis by (simp only: eq)
    next
      case nonneg: False
      let ?k = "search_by f pivot work (?mid + 1) right"
      from True nonneg 1(2) m have IH: "(?k = ?mid + 1 \<or> 0 \<le> f pivot (work ! (?k - 1)))
          \<and> (?k = right \<or> f pivot (work ! ?k) < 0)"
        by simp
      have eq: "search_by f pivot work left right = ?k"
        using True nonneg by (subst search_by.simps) simp
      from IH nonneg have "(?k = left \<or> 0 \<le> f pivot (work ! (?k - 1)))
          \<and> (?k = right \<or> f pivot (work ! ?k) < 0)"
        by auto
      then show ?thesis by (simp only: eq)
    qed
  next
    case False
    then have "search_by f pivot work left right = left"
      by (subst search_by.simps) simp
    moreover from False "1.prems" have "left = right" by simp
    ultimately show ?thesis by simp
  qed
qed

subsection \<open>Neighbours in the output\<close>

lemma take_ascending:
  "successively (\<lambda>prev next. 0 \<le> f next prev) (p # take (run_more f False p rest) rest)"
  by (induction rest arbitrary: p) (auto simp: not_less)

lemma take_descending:
  "successively (\<lambda>prev next. f next prev < 0) (p # take (run_more f True p rest) rest)"
  by (induction rest arbitrary: p) (auto simp: not_le)

lemma successively_insert_at:
  assumes "successively R work" and "k \<le> length work"
    and "k = 0 \<or> R (work ! (k - 1)) pivot"
    and "k = length work \<or> R pivot (work ! k)"
  shows "successively R (take k work @ pivot # drop k work)"
proof -
  from assms(1) have "successively R (take k work @ drop k work)" by simp
  then have t: "successively R (take k work)" and d: "successively R (drop k work)"
    by (simp_all only: successively_append_iff)
  have l: "take k work = [] \<or> R (last (take k work)) pivot"
  proof (cases "k = 0")
    case True
    then show ?thesis by simp
  next
    case False
    with assms(2) have "take k work \<noteq> []" and "length (take k work) = k" by auto
    then have "last (take k work) = take k work ! (k - 1)" by (simp add: last_conv_nth)
    with False have "last (take k work) = work ! (k - 1)" by simp
    with False assms(3) show ?thesis by simp
  qed
  have r: "drop k work = [] \<or> R pivot (hd (drop k work))"
  proof (cases "k = length work")
    case True
    then show ?thesis by simp
  next
    case False
    with assms(2) have "hd (drop k work) = work ! k" by (simp add: hd_drop_conv_nth)
    with False assms(4) show ?thesis by simp
  qed
  from d r have "successively R (pivot # drop k work)"
    by (cases "drop k work") auto
  with t l show ?thesis by (auto simp: successively_append_iff)
qed

lemma successively_insert_by:
  assumes anti: "\<And>a b. f a b < 0 \<Longrightarrow> 0 \<le> f b a"
    and "successively (\<lambda>prev next. 0 \<le> f next prev) work"
  shows "successively (\<lambda>prev next. 0 \<le> f next prev) (insert_by f work rest)"
  using assms(2)
proof (induction rest arbitrary: work)
  case Nil
  then show ?case by simp
next
  case (Cons pivot rest)
  let ?k = "search_by f pivot work 0 (length work)"
  have b: "?k \<le> length work" using search_by_bounds [of 0 "length work" f pivot work] by simp
  from search_by_neighbours [of 0 "length work" f pivot work]
  have n: "(?k = 0 \<or> 0 \<le> f pivot (work ! (?k - 1)))
           \<and> (?k = length work \<or> f pivot (work ! ?k) < 0)"
    by simp
  then have "?k = length work \<or> 0 \<le> f (work ! ?k) pivot" using anti by blast
  with n Cons.prems b
  have "successively (\<lambda>prev next. 0 \<le> f next prev) (take ?k work @ pivot # drop ?k work)"
    by (intro successively_insert_at) auto
  from Cons.IH [OF this] show ?case by simp
qed

lemma successively_sort_by:
  assumes anti: "\<And>a b. f a b < 0 \<Longrightarrow> 0 \<le> f b a"
  shows "successively (\<lambda>prev next. 0 \<le> f next prev) (sort_by f xs)"
proof (cases xs rule: two_or_fewer)
  case (3 low high rest)
  let ?R = "\<lambda>prev next. 0 \<le> f next prev"
  have "successively ?R
          (if f high low < 0
           then rev (take (run_more f True high rest + 2) (low # high # rest))
           else take (run_more f False high rest + 2) (low # high # rest))"
  proof (cases "f high low < 0")
    case True
    from take_descending [of f high rest] True
    have "successively (\<lambda>prev next. f next prev < 0)
            (low # high # take (run_more f True high rest) rest)"
      by simp
    then have "successively (\<lambda>prev next. 0 \<le> f prev next)
            (low # high # take (run_more f True high rest) rest)"
      by (rule successively_mono) (auto dest: anti)
    then have "successively ?R (rev (low # high # take (run_more f True high rest) rest))"
      by (simp only: successively_rev)
    with True show ?thesis by simp
  next
    case False
    with take_ascending [of f high rest] show ?thesis by simp
  qed
  from successively_insert_by [OF anti this] 3 show ?thesis by simp
qed simp_all



subsection \<open>A comparator that is a difference of keys\<close>

lemma successively_insert_step:
  assumes anti: "\<And>a b. f a b < 0 \<Longrightarrow> 0 \<le> f b a"
    and "successively (\<lambda>prev next. 0 \<le> f next prev) work"
  shows "successively (\<lambda>prev next. 0 \<le> f next prev)
           (take (search_by f pivot work 0 (length work)) work
            @ pivot # drop (search_by f pivot work 0 (length work)) work)"
proof -
  let ?k = "search_by f pivot work 0 (length work)"
  have b: "?k \<le> length work" using search_by_bounds [of 0 "length work" f pivot work] by simp
  from search_by_neighbours [of 0 "length work" f pivot work]
  have n: "(?k = 0 \<or> 0 \<le> f pivot (work ! (?k - 1)))
           \<and> (?k = length work \<or> f pivot (work ! ?k) < 0)"
    by simp
  then have "?k = length work \<or> 0 \<le> f (work ! ?k) pivot" using anti by blast
  with n assms(2) b show ?thesis by (intro successively_insert_at) auto
qed

lemma keyed_sorted:
  assumes "successively (\<lambda>prev next. 0 \<le> f next prev) ys"
    and K: "\<And>a b. a \<in> set ys \<Longrightarrow> b \<in> set ys \<Longrightarrow> f a b = key a - (key b :: int)"
  shows "sorted (map key ys)"
proof -
  from assms(1) have "successively (\<lambda>a b. key a \<le> key b) ys"
    by (rule successively_mono) (simp add: K)
  moreover have "transp (\<lambda>a b. key a \<le> (key b :: int))" by (auto intro: transpI)
  ultimately have "sorted_wrt (\<lambda>a b. key a \<le> key b) ys"
    by (simp only: successively_conv_sorted_wrt)
  then show ?thesis by (simp only: sorted_map)
qed

lemma insert_position_keys:
  assumes s: "sorted (map key work)"
    and K: "\<And>a b. a \<in> insert pivot (set work) \<Longrightarrow> b \<in> insert pivot (set work)
              \<Longrightarrow> f a b = key a - (key b :: int)"
    and i: "search_by f pivot work 0 (length work) \<le> i" "i < length work"
  shows "key pivot < key (work ! i)"
proof -
  let ?k = "search_by f pivot work 0 (length work)"
  from i have kl: "?k < length work" by simp
  with search_by_neighbours [of 0 "length work" f pivot work]
  have "f pivot (work ! ?k) < 0" by simp
  moreover from kl have "work ! ?k \<in> set work" by simp
  ultimately have "key pivot < key (work ! ?k)" using K [of pivot "work ! ?k"] by simp
  moreover from s i have "map key work ! ?k \<le> map key work ! i"
    by (intro sorted_nth_mono) simp_all
  ultimately show ?thesis using i kl by simp
qed

lemma filter_insert_at:
  assumes s: "sorted (map key work)"
    and K: "\<And>a b. a \<in> insert pivot (set work) \<Longrightarrow> b \<in> insert pivot (set work)
              \<Longrightarrow> f a b = key a - (key b :: int)"
  shows "filter (\<lambda>r. key r = v)
           (take (search_by f pivot work 0 (length work)) work
            @ pivot # drop (search_by f pivot work 0 (length work)) work)
         = filter (\<lambda>r. key r = v) (work @ [pivot])"
proof -
  let ?k = "search_by f pivot work 0 (length work)"
  let ?P = "\<lambda>r. key r = v"
  have split: "filter ?P work = filter ?P (take ?k work) @ filter ?P (drop ?k work)"
    by (metis append_take_drop_id filter_append)
  show ?thesis
  proof (cases "key pivot = v")
    case True
    have "\<forall>x \<in> set (drop ?k work). \<not> ?P x"
    proof
      fix x assume "x \<in> set (drop ?k work)"
      then obtain j where j: "j < length (drop ?k work)" "x = drop ?k work ! j"
        by (auto simp: in_set_conv_nth)
      then have "x = work ! (?k + j)" "?k + j < length work" by auto
      moreover from this have "key pivot < key (work ! (?k + j))"
        by (intro insert_position_keys [OF s K]) simp_all
      ultimately show "\<not> ?P x" using True by simp
    qed
    then have "filter ?P (drop ?k work) = []" by (simp add: filter_empty_conv)
    with split True show ?thesis by simp
  next
    case False
    with split show ?thesis by simp
  qed
qed

lemma filter_insert_by:
  assumes anti: "\<And>a b. f a b < 0 \<Longrightarrow> 0 \<le> f b a"
    and K: "\<And>a b. a \<in> set work \<union> set rest \<Longrightarrow> b \<in> set work \<union> set rest
              \<Longrightarrow> f a b = key a - (key b :: int)"
    and "successively (\<lambda>prev next. 0 \<le> f next prev) work"
  shows "filter (\<lambda>r. key r = v) (insert_by f work rest) = filter (\<lambda>r. key r = v) (work @ rest)"
  using K assms(3)
proof (induction rest arbitrary: work)
  case Nil
  show ?case by simp
next
  case (Cons pivot rest)
  let ?k = "search_by f pivot work 0 (length work)"
  let ?work = "take ?k work @ pivot # drop ?k work"
  have set_work: "set ?work = insert pivot (set work)"
    by (metis append_take_drop_id list.simps(15) set_append Un_insert_right)
  have s: "sorted (map key work)"
    by (rule keyed_sorted [OF Cons.prems(2)]) (use Cons.prems(1) in auto)
  have step: "filter (\<lambda>r. key r = v) ?work = filter (\<lambda>r. key r = v) (work @ [pivot])"
    by (rule filter_insert_at [OF s]) (use Cons.prems(1) in auto)
  have "filter (\<lambda>r. key r = v) (insert_by f ?work rest) = filter (\<lambda>r. key r = v) (?work @ rest)"
  proof (rule Cons.IH)
    show "successively (\<lambda>prev next. 0 \<le> f next prev) ?work"
      by (rule successively_insert_step [OF anti Cons.prems(2)])
    show "f a b = key a - (key b :: int)" if "a \<in> set ?work \<union> set rest" "b \<in> set ?work \<union> set rest" for a b
    proof -
      from that have "a \<in> set work \<union> set (pivot # rest)" "b \<in> set work \<union> set (pivot # rest)"
        unfolding set_work by auto
      then show ?thesis by (rule Cons.prems(1))
    qed
  qed
  then have "filter (\<lambda>r. key r = v) (insert_by f work (pivot # rest))
      = filter (\<lambda>r. key r = v) ?work @ filter (\<lambda>r. key r = v) rest"
    by (simp only: insert_by.simps filter_append)
  also have "\<dots> = filter (\<lambda>r. key r = v) (work @ [pivot]) @ filter (\<lambda>r. key r = v) rest"
    by (simp only: step)
  also have "\<dots> = filter (\<lambda>r. key r = v) (work @ pivot # rest)"
    by simp
  finally show ?case .
qed

lemma single_per_key:
  "sorted_wrt (\<lambda>a b. key b < (key a :: int)) ys \<Longrightarrow> length (filter (\<lambda>r. key r = v) ys) \<le> 1"
proof (induction ys)
  case Nil
  show ?case by simp
next
  case (Cons y ys)
  show ?case
  proof (cases "key y = v")
    case True
    with Cons.prems have "\<forall>z \<in> set ys. key z \<noteq> v" by auto
    then have "filter (\<lambda>r. key r = v) ys = []" by (simp add: filter_empty_conv)
    with True show ?thesis by simp
  next
    case False
    with Cons show ?thesis by simp
  qed
qed

lemma rev_short: "length zs \<le> 1 \<Longrightarrow> rev zs = zs"
  by (cases zs) auto

lemma filter_descending_run:
  assumes "successively (\<lambda>prev next. f next prev < 0) ys"
    and K: "\<And>a b. a \<in> set ys \<Longrightarrow> b \<in> set ys \<Longrightarrow> f a b = key a - (key b :: int)"
  shows "filter (\<lambda>r. key r = v) (rev ys) = filter (\<lambda>r. key r = v) ys"
proof -
  from assms(1) have "successively (\<lambda>a b. key b < key a) ys"
    by (rule successively_mono) (simp add: K)
  moreover have "transp (\<lambda>a b. key b < (key a :: int))" by (auto intro: transpI)
  ultimately have "sorted_wrt (\<lambda>a b. key b < key a) ys"
    by (simp only: successively_conv_sorted_wrt)
  then have "length (filter (\<lambda>r. key r = v) ys) \<le> 1" by (rule single_per_key)
  then have "rev (filter (\<lambda>r. key r = v) ys) = filter (\<lambda>r. key r = v) ys" by (rule rev_short)
  then show ?thesis by (simp only: rev_filter)
qed

lemma filter_sort_by:
  assumes anti: "\<And>a b. f a b < 0 \<Longrightarrow> 0 \<le> f b a"
    and K: "\<And>a b. a \<in> set xs \<Longrightarrow> b \<in> set xs \<Longrightarrow> f a b = key a - (key b :: int)"
  shows "filter (\<lambda>r. key r = v) (sort_by f xs) = filter (\<lambda>r. key r = v) xs"
proof (cases xs rule: two_or_fewer)
  case (3 low high rest)
  let ?R = "\<lambda>prev next. 0 \<le> f next prev"
  let ?P = "\<lambda>r. key r = v"
  let ?n = "run_more f (f high low < 0) high rest"
  let ?head = "low # high # take ?n rest"
  let ?run = "if f high low < 0 then rev ?head else ?head"
  have sets: "set ?head \<union> set (drop ?n rest) = set xs"
    using 3 by (metis append_take_drop_id append_Cons set_append)
  have sub: "set ?head \<subseteq> set xs" using sets by blast
  have run: "successively ?R ?run \<and> filter ?P ?run = filter ?P ?head"
  proof (cases "f high low < 0")
    case True
    from take_descending [of f high rest] True
    have d: "successively (\<lambda>prev next. f next prev < 0) ?head" by simp
    then have "successively (\<lambda>prev next. 0 \<le> f prev next) ?head"
      by (rule successively_mono) (auto dest: anti)
    then have "successively ?R (rev ?head)" by (simp only: successively_rev)
    moreover have "filter ?P (rev ?head) = filter ?P ?head"
      by (rule filter_descending_run [OF d]) (use sub K in blast)
    ultimately show ?thesis using True by simp
  next
    case False
    with take_ascending [of f high rest] show ?thesis by simp
  qed
  have "set ?run = set ?head" by (cases "f high low < 0") auto
  with sets have sets': "set ?run \<union> set (drop ?n rest) = set xs" by simp
  have K': "f a b = key a - key b"
    if "a \<in> set ?run \<union> set (drop ?n rest)" "b \<in> set ?run \<union> set (drop ?n rest)" for a b
  proof -
    from that have "a \<in> set xs" "b \<in> set xs" unfolding sets' by simp_all
    then show ?thesis by (rule K)
  qed
  have "filter ?P (insert_by f ?run (drop ?n rest)) = filter ?P (?run @ drop ?n rest)"
    by (rule filter_insert_by [OF anti K' conjunct1 [OF run]])
  also have "\<dots> = filter ?P ?run @ filter ?P (drop ?n rest)" by (simp only: filter_append)
  also have "\<dots> = filter ?P ?head @ filter ?P (drop ?n rest)"
    by (simp only: conjunct2 [OF run])
  also have "\<dots> = filter ?P (?head @ drop ?n rest)" by (simp only: filter_append)
  also have "?head @ drop ?n rest = xs" using 3 by simp
  finally have "filter ?P (insert_by f ?run (drop ?n rest)) = filter ?P xs" .
  moreover have "sort_by f xs = insert_by f ?run (drop ?n rest)"
    using 3 by (cases "f high low < 0") simp_all
  ultimately show ?thesis by (simp only:)
qed simp_all

subsection \<open>Ranks and sortedness\<close>

lemma indexOf_range: "indexOf xs x = - 1 \<or> (0 \<le> indexOf xs x \<and> indexOf xs x < int (length xs))"
  by (induction xs) (auto simp: Let_def)

lemma indexOf_absent: "x \<notin> set xs \<Longrightarrow> indexOf xs x = - 1"
  by (induction xs) (auto simp: Let_def)

lemma indexOf_present: "x \<in> set xs \<Longrightarrow> 0 \<le> indexOf xs x"
  by (induction xs) (auto simp: Let_def)

lemma rank_table:
  "indexOf locationTypesOrder ''PROVINCE'' = 0 \<and> indexOf locationTypesOrder ''DISTRICT'' = 1
   \<and> indexOf locationTypesOrder ''SECTOR'' = 2 \<and> indexOf locationTypesOrder ''CELL'' = 3
   \<and> indexOf locationTypesOrder ''VILLAGE'' = 4"
  by (simp add: locationTypesOrder_def)

lemma rank_difference_anti: "rank_difference a b < 0 \<Longrightarrow> 0 \<le> rank_difference b a"
  by (auto simp: rank_difference_def split: option.splits)

lemma rank_difference_ranked:
  "level_rank a = Some i \<Longrightarrow> level_rank b = Some j \<Longrightarrow> rank_difference a b = i - j"
  by (simp add: rank_difference_def)

lemma level_rank_defined: "get r ''Level'' \<noteq> None \<Longrightarrow> \<exists>i. level_rank r = Some i"
  by (auto simp: level_rank_def)

lemma rank_difference_keyed:
  assumes "\<forall>r \<in> set xs. level_rank r \<noteq> None" and "a \<in> set xs" and "b \<in> set xs"
  shows "rank_difference a b = the (level_rank a) - the (level_rank b)"
proof -
  from assms have "level_rank a \<noteq> None" "level_rank b \<noteq> None" by simp_all
  then obtain i j where "level_rank a = Some i" "level_rank b = Some j" by auto
  then show ?thesis by (simp add: rank_difference_ranked)
qed


lemma sorted_sort_by:
  assumes "\<forall>r \<in> set xs. level_rank r \<noteq> None"
  shows "sorted (map (\<lambda>r. the (level_rank r)) (sort_by rank_difference xs))"
proof (rule keyed_sorted)
  show "successively (\<lambda>prev next. 0 \<le> rank_difference next prev) (sort_by rank_difference xs)"
    by (rule successively_sort_by [OF rank_difference_anti])
  show "rank_difference a b = the (level_rank a) - the (level_rank b)"
    if "a \<in> set (sort_by rank_difference xs)" "b \<in> set (sort_by rank_difference xs)" for a b
    using that by (intro rank_difference_keyed [OF assms]) (simp_all add: set_sort_by)
qed

lemma stable_sort_by:
  assumes "\<forall>r \<in> set xs. level_rank r \<noteq> None"
  shows "filter (\<lambda>r. level_rank r = Some k) (sort_by rank_difference xs)
         = filter (\<lambda>r. level_rank r = Some k) xs"
proof -
  have same: "filter (\<lambda>r. level_rank r = Some k) ys = filter (\<lambda>r. the (level_rank r) = k) ys"
    if "set ys = set xs" for ys
  proof (rule filter_cong [OF refl])
    fix r assume "r \<in> set ys"
    with that assms obtain i where "level_rank r = Some i" by auto
    then show "(level_rank r = Some k) = (the (level_rank r) = k)" by simp
  qed
  have "filter (\<lambda>r. the (level_rank r) = k) (sort_by rank_difference xs)
        = filter (\<lambda>r. the (level_rank r) = k) xs"
  proof (rule filter_sort_by)
    show "0 \<le> rank_difference b a" if "rank_difference a b < 0" for a b
      using that by (rule rank_difference_anti)
    show "rank_difference a b = the (level_rank a) - the (level_rank b)"
      if "a \<in> set xs" "b \<in> set xs" for a b
      using that by (rule rank_difference_keyed [OF assms])
  qed
  then show ?thesis by (simp only: same [OF set_sort_by] same [OF refl])
qed

lemma sorted_positions:
  assumes "sorted (map (\<lambda>r. the (level_rank r)) out)"
    and "i < length out" and "j < length out"
    and "the (level_rank (out ! i)) < the (level_rank (out ! j))"
  shows "i < j"
proof (rule ccontr)
  assume "\<not> i < j"
  then have "j \<le> i" by simp
  with assms(1,2) have "map (\<lambda>r. the (level_rank r)) out ! j \<le> map (\<lambda>r. the (level_rank r)) out ! i"
    by (intro sorted_nth_mono) simp_all
  with assms(2,3,4) show False by simp
qed

lemma with_level_ordered:
  assumes "\<forall>r \<in> set batch. get r ''Level'' \<noteq> None"
  shows "\<exists>out. sequencer batch = Inr out \<and> mset out = mset batch
           \<and> (\<forall>i j ka kb. i < length out \<and> j < length out \<and> level_rank (out ! i) = Some ka
                  \<and> level_rank (out ! j) = Some kb \<and> ka < kb \<longrightarrow> i < j)"
proof -
  let ?out = "sort_by rank_difference batch"
  from assms have "\<forall>r \<in> set batch. level_rank r \<noteq> None"
    using level_rank_defined by fastforce
  then have "sorted (map (\<lambda>r. the (level_rank r)) ?out)" by (rule sorted_sort_by)
  then have "\<forall>i j ka kb. i < length ?out \<and> j < length ?out \<and> level_rank (?out ! i) = Some ka
                  \<and> level_rank (?out ! j) = Some kb \<and> ka < kb \<longrightarrow> i < j"
    using sorted_positions [of ?out] by fastforce
  then show ?thesis
    using sequencer_pure [of batch] mset_sort_by [of rank_difference batch] by blast
qed

lemma recognized_rank:
  "recognized r \<Longrightarrow> \<exists>k. level_rank r = Some k \<and> 0 \<le> k"
  by (auto simp: recognized_def level_rank_def intro: indexOf_present split: option.splits)

lemma unrecognized_rank:
  "get r ''Level'' = Some l \<Longrightarrow> toUpperCase l \<notin> set locationTypesOrder \<Longrightarrow> level_rank r = Some (- 1)"
  by (simp add: level_rank_def indexOf_absent)

section \<open>Claims about the sequencer\<close>

text \<open>
  Claim C1 (ordering invariant). For every batch in which the level of each record
  normalizes to one of the five tags, the sequencer returns a rearrangement of the batch
  in which a record of lower rank stands before every record of higher rank: whenever the
  ranks at positions \<open>i\<close> and \<open>j\<close> of the output satisfy \<open>ka < kb\<close>, then
  \<open>i < j\<close>. The ranks are the indices in \<^const>\<open>locationTypesOrder\<close>:
  PROVINCE 0, DISTRICT 1, SECTOR 2, CELL 3, VILLAGE 4.
\<close>

theorem sequencer_orders_by_rank:
  assumes "\<forall>r \<in> set batch. recognized r"
  shows "\<exists>out. sequencer batch = Inr out \<and> mset out = mset batch
           \<and> (\<forall>i j ka kb. i < length out \<and> j < length out \<and> level_rank (out ! i) = Some ka
                  \<and> level_rank (out ! j) = Some kb \<and> ka < kb \<longrightarrow> i < j)
           \<and> indexOf locationTypesOrder ''PROVINCE'' = 0
           \<and> indexOf locationTypesOrder ''DISTRICT'' = 1
           \<and> indexOf locationTypesOrder ''SECTOR'' = 2
           \<and> indexOf locationTypesOrder ''CELL'' = 3
           \<and> indexOf locationTypesOrder ''VILLAGE'' = 4"
proof -
  have "\<forall>r \<in> set batch. get r ''Level'' \<noteq> None"
    using assms by (auto simp: recognized_def split: option.splits)
  from with_level_ordered [OF this] rank_table show ?thesis by blast
qed

text \<open>C1 at a district followed by a province: the province comes out first.\<close>

theorem sequencer_orders_by_rank_witness:
  "recognized nyarugenge \<and> recognized kigali
   \<and> (\<exists>out. sequencer [nyarugenge, kigali] = Inr out \<and> mset out = mset [nyarugenge, kigali]
           \<and> (\<forall>i j ka kb. i < length out \<and> j < length out \<and> level_rank (out ! i) = Some ka
                  \<and> level_rank (out ! j) = Some kb \<and> ka < kb \<longrightarrow> i < j))
   \<and> sequencer [nyarugenge, kigali] = Inr [kigali, nyarugenge]"
proof -
  have n: "recognized nyarugenge" and k: "recognized kigali" by code_simp+
  then have h: "\<forall>r \<in> set [nyarugenge, kigali]. recognized r" by simp
  have e: "sequencer [nyarugenge, kigali] = Inr [kigali, nyarugenge]" by code_simp
  from sequencer_orders_by_rank [OF h] n k e show ?thesis by blast
qed

lemma comparator_total: "\<exists>v. comparator a b = Inr v"
  by (simp add: comparator_def split: sum.splits)

text \<open>
  Claim C6 (malformed levels do not stop the sequencer). For every batch that holds a
  record whose level is not one of the five tags after upper-casing, or that has no level
  at all, the sequencer returns a result and never an error, the result is a
  rearrangement of the batch and is the only one, the lookup of an unknown level string is
  -1, and the comparator returns a value on that record and any other, in both orders.
\<close>

theorem sequencer_survives_malformed_level:
  assumes "r \<in> set batch" and "\<not> recognized r"
  shows "(\<exists>!out. sequencer batch = Inr out)
         \<and> (\<exists>out. sequencer batch = Inr out \<and> mset out = mset batch)
         \<and> (\<forall>l. get r ''Level'' = Some l \<longrightarrow> indexOf locationTypesOrder (toUpperCase l) = - 1)
         \<and> (\<forall>other. (\<exists>v. comparator r other = Inr v) \<and> (\<exists>v. comparator other r = Inr v))"
proof -
  have "\<exists>!out. sequencer batch = Inr out" by (simp add: sequencer_pure)
  moreover have "\<exists>out. sequencer batch = Inr out \<and> mset out = mset batch"
    by (simp add: sequencer_pure mset_sort_by)
  moreover have "\<forall>l. get r ''Level'' = Some l \<longrightarrow> indexOf locationTypesOrder (toUpperCase l) = - 1"
    using assms(2) by (auto simp: recognized_def indexOf_absent)
  ultimately show ?thesis using comparator_total by blast
qed

text \<open>C6 at a batch with an unknown level and a row without level.\<close>

theorem sequencer_survives_malformed_level_witness:
  "township \<in> set [kigali, township, blank_row] \<and> \<not> recognized township
   \<and> (\<exists>out. sequencer [kigali, township, blank_row] = Inr out
          \<and> mset out = mset [kigali, township, blank_row])
   \<and> indexOf locationTypesOrder (toUpperCase ''town'') = - 1"
proof -
  have m: "township \<in> set [kigali, township, blank_row]" by simp
  have u: "\<not> recognized township" by code_simp
  have g: "get township ''Level'' = Some ''town''" by code_simp
  from sequencer_survives_malformed_level [OF m u] g m u show ?thesis by blast
qed



text \<open>
  Claim C10 says that in every batch two records of equal rank keep their input order.
  A row without \<^verbatim>\<open>Level\<close> breaks this: the comparator returns \<^verbatim>\<open>undefined\<close> on
  it, the binary search reads that as 0 and steps over it, and the province Eastern, which
  follows the province Northern in the input, is inserted in front of it.
\<close>

theorem equal_rank_swapped_counterexample:
  "sequencer [nyarugenge, kigali, blank_row, southern, western, northern, eastern]
     = Inr [kigali, southern, western, eastern, nyarugenge, blank_row, northern]
   \<and> level_rank northern = Some 0 \<and> level_rank eastern = Some 0
   \<and> comparator northern eastern = Inr (Some 0)"
  by code_simp

text \<open>
  Claim C10, amended (stability at equal rank). For every batch in which every record
  has a \<^verbatim>\<open>Level\<close> property and every rank \<open>k\<close>, the records of rank \<open>k\<close>
  appear in the output in the order they have in the input; and on two records of equal
  rank the comparator returns 0.
\<close>

theorem sequencer_stable:
  assumes "\<forall>r \<in> set batch. get r ''Level'' \<noteq> None"
  shows "(\<exists>out. sequencer batch = Inr out
            \<and> (\<forall>k. filter (\<lambda>r. level_rank r = Some k) out
                    = filter (\<lambda>r. level_rank r = Some k) batch))
         \<and> (level_rank a = Some k \<and> level_rank b = Some k \<longrightarrow> comparator a b = Inr (Some 0))"
proof -
  from assms have "\<forall>r \<in> set batch. level_rank r \<noteq> None"
    using level_rank_defined by fastforce
  then have "filter (\<lambda>r. level_rank r = Some k) (sort_by rank_difference batch)
        = filter (\<lambda>r. level_rank r = Some k) batch" for k
    by (rule stable_sort_by)
  moreover have "level_rank a = Some k \<and> level_rank b = Some k \<longrightarrow> comparator a b = Inr (Some 0)"
    by (auto simp: comparator_def compare_levels_def call_toUpperCase_def level_rank_def
        split: option.splits)
  ultimately show ?thesis by (simp add: sequencer_pure)
qed

text \<open>C10 as amended, at two districts around a province: the districts keep their order.\<close>

theorem sequencer_stable_witness:
  "get nyarugenge ''Level'' \<noteq> None \<and> get kigali ''Level'' \<noteq> None \<and> get gasabo ''Level'' \<noteq> None
   \<and> level_rank nyarugenge = Some 1 \<and> level_rank gasabo = Some 1
   \<and> comparator nyarugenge gasabo = Inr (Some 0)
   \<and> (\<exists>out. sequencer [nyarugenge, kigali, gasabo] = Inr out
          \<and> filter (\<lambda>r. level_rank r = Some 1) out = [nyarugenge, gasabo])
   \<and> sequencer [nyarugenge, kigali, gasabo] = Inr [kigali, nyarugenge, gasabo]"
proof -
  have l: "get nyarugenge ''Level'' \<noteq> None" "get kigali ''Level'' \<noteq> None"
    "get gasabo ''Level'' \<noteq> None"
    by code_simp+
  then have h: "\<forall>r \<in> set [nyarugenge, kigali, gasabo]. get r ''Level'' \<noteq> None" by simp
  have n: "level_rank nyarugenge = Some 1" and g: "level_rank gasabo = Some 1" by code_simp+
  have k: "level_rank kigali = Some 0" by code_simp
  have e: "sequencer [nyarugenge, kigali, gasabo] = Inr [kigali, nyarugenge, gasabo]"
    by code_simp
  from sequencer_stable [OF h, of nyarugenge 1 gasabo] l n g k e
  show ?thesis by auto
qed

text \<open>
  Claim C9 says that in every batch a record with an unknown level string sorts before
  every record with a recognized level. A row without \<^verbatim>\<open>Level\<close> between the two
  breaks this: the comparator returns \<^verbatim>\<open>undefined\<close> on it, every comparison the sort
  makes reads as 0, and the province stays in front of the record of rank -1.
\<close>

theorem unrecognized_not_first_counterexample:
  "sequencer [kigali, blank_row, township] = Inr [kigali, blank_row, township]
   \<and> recognized kigali
   \<and> get township ''Level'' = Some ''town''
   \<and> toUpperCase ''town'' \<notin> set locationTypesOrder
   \<and> level_rank township = Some (- 1)"
  by code_simp

text \<open>
  Claim C9, amended (unknown levels sort first). For every batch in which every record
  has a \<^verbatim>\<open>Level\<close> property, a record whose level is not a recognized tag has rank
  -1 and stands in the output before every record with a recognized level.
\<close>

theorem unrecognized_levels_first:
  assumes "\<forall>r \<in> set batch. get r ''Level'' \<noteq> None"
  shows "\<exists>out. sequencer batch = Inr out \<and> mset out = mset batch
           \<and> (\<forall>i j. i < length out \<and> j < length out
                  \<and> \<not> recognized (out ! i) \<and> recognized (out ! j)
                \<longrightarrow> level_rank (out ! i) = Some (- 1) \<and> i < j)"
proof -
  from with_level_ordered [OF assms] obtain out where
    out: "sequencer batch = Inr out" "mset out = mset batch"
    and ord: "\<And>i j ka kb. i < length out \<Longrightarrow> j < length out \<Longrightarrow> level_rank (out ! i) = Some ka
                  \<Longrightarrow> level_rank (out ! j) = Some kb \<Longrightarrow> ka < kb \<Longrightarrow> i < j"
    by blast
  have "level_rank (out ! i) = Some (- 1) \<and> i < j"
    if ij: "i < length out" "j < length out"
      and u: "\<not> recognized (out ! i)" and r: "recognized (out ! j)" for i j
  proof -
    from out(2) have "set out = set batch" by (metis set_mset_mset)
    with ij(1) assms obtain l where l: "get (out ! i) ''Level'' = Some l"
      by (metis nth_mem option.exhaust)
    with u have "toUpperCase l \<notin> set locationTypesOrder" by (simp add: recognized_def)
    with l have a: "level_rank (out ! i) = Some (- 1)" by (rule unrecognized_rank)
    from recognized_rank [OF r] obtain k where k: "level_rank (out ! j) = Some k" "0 \<le> k"
      by blast
    from ord [OF ij a k(1)] k(2) a show ?thesis by simp
  qed
  with out show ?thesis by blast
qed

text \<open>C9 as amended, at a province followed by a record of unknown level.\<close>

theorem unrecognized_levels_first_witness:
  "get kigali ''Level'' \<noteq> None \<and> get township ''Level'' \<noteq> None
   \<and> (\<exists>out. sequencer [kigali, township] = Inr out \<and> mset out = mset [kigali, township])
   \<and> sequencer [kigali, township] = Inr [township, kigali]
   \<and> \<not> recognized township \<and> recognized kigali"
proof -
  have a: "get kigali ''Level'' \<noteq> None" and b: "get township ''Level'' \<noteq> None" by code_simp+
  then have h: "\<forall>r \<in> set [kigali, township]. get r ''Level'' \<noteq> None" by simp
  have e: "sequencer [kigali, township] = Inr [township, kigali]" by code_simp
  have r: "\<not> recognized township" "recognized kigali" by code_simp+
  from unrecognized_levels_first [OF h] a b e r show ?thesis by blast
qed

section \<open>Claims about the record loader\<close>

lemma from_end_suffix: "\<exists>suf. xs = rev (dropWhile P (rev xs)) @ suf \<and> (\<forall>c \<in> set suf. P c)"
proof -
  have "rev xs = takeWhile P (rev xs) @ dropWhile P (rev xs)" by simp
  then have "xs = rev (dropWhile P (rev xs)) @ rev (takeWhile P (rev xs))"
    by (metis rev_append rev_rev_ident)
  moreover have "\<forall>c \<in> set (rev (takeWhile P (rev xs))). P c"
    by (auto dest: set_takeWhileD)
  ultimately show ?thesis by blast
qed

lemma trim_decompose:
  "\<exists>pre suf. s = pre @ trim s @ suf \<and> (\<forall>c \<in> set pre. is_whitespace c) \<and> (\<forall>c \<in> set suf. is_whitespace c)"
proof -
  let ?t = "dropWhile is_whitespace s"
  have "s = takeWhile is_whitespace s @ ?t" by simp
  moreover from from_end_suffix [of ?t is_whitespace] obtain suf
    where "?t = trim s @ suf" "\<forall>c \<in> set suf. is_whitespace c"
    by (auto simp: trim_def)
  moreover have "\<forall>c \<in> set (takeWhile is_whitespace s). is_whitespace c"
    by (auto dest: set_takeWhileD)
  ultimately show ?thesis by metis
qed

lemma trim_last: "trim s \<noteq> [] \<Longrightarrow> \<not> is_whitespace (last (trim s))"
proof -
  assume "trim s \<noteq> []"
  then have ne: "dropWhile is_whitespace (rev (dropWhile is_whitespace s)) \<noteq> []"
    by (simp add: trim_def)
  then have "\<not> is_whitespace (hd (dropWhile is_whitespace (rev (dropWhile is_whitespace s))))"
    by (rule hd_dropWhile)
  with ne show ?thesis by (simp add: trim_def last_rev)
qed

lemma trim_hd: "trim s \<noteq> [] \<Longrightarrow> \<not> is_whitespace (hd (trim s))"
proof -
  let ?t = "dropWhile is_whitespace s"
  assume ne: "trim s \<noteq> []"
  from from_end_suffix [of ?t is_whitespace] obtain suf where t: "?t = trim s @ suf"
    by (auto simp: trim_def)
  with ne have "?t \<noteq> []" by auto
  then have "\<not> is_whitespace (hd ?t)" by (rule hd_dropWhile)
  with t ne show ?thesis by (metis hd_append2)
qed

lemma trim_fixed: "trim (trim s) = trim s"
proof (cases "trim s = []")
  case True
  have "trim [] = []" by (simp add: trim_def)
  with True show ?thesis by simp
next
  case False
  from trim_hd [OF False] have a: "dropWhile is_whitespace (trim s) = trim s"
    using False by (cases "trim s") simp_all
  from trim_last [OF False] have "\<not> is_whitespace (hd (rev (trim s)))"
    using False by (simp add: hd_rev)
  then have "dropWhile is_whitespace (rev (trim s)) = rev (trim s)"
    using False by (cases "rev (trim s)") simp_all
  with a show ?thesis by (simp add: trim_def [of "trim s"])
qed

lemma on_data_keys: "map fst (on_data row) = map fst row"
  by (simp add: on_data_def case_prod_unfold comp_def)

lemma on_data_values: "map snd (on_data row) = map trim (map snd row)"
  by (simp add: on_data_def case_prod_unfold comp_def)

lemma get_on_data: "get (on_data row) key = map_option trim (get row key)"
  unfolding get_def on_data_def by (induction row) auto

lemma on_data_field: "(key, v) \<in> set (on_data row) \<Longrightarrow> \<exists>raw. (key, raw) \<in> set row \<and> v = trim raw"
  by (auto simp: on_data_def)

text \<open>
  Claim C8 (field trimming). Whenever the loader resolves, every field of every record it
  hands on is the trimmed form of the field the parser gave: the raw value is the loaded
  value between two runs of whitespace (TAB, LF, VT, FF, CR, SPACE, no-break space), and
  the loaded value neither begins nor ends with a whitespace character. The raw value \<^verbatim>\<open>"  Kigali  "\<close> loads as
  \<^verbatim>\<open>"Kigali"\<close>.
\<close>

theorem loaded_fields_trimmed:
  assumes "snd (readCsvFile src) = Resolved records"
    and "n < length records" and "(key, v) \<in> set (records ! n)"
  shows "(\<exists>rows raw pre suf. src = Complete rows \<and> length rows = length records
            \<and> (key, raw) \<in> set (rows ! n) \<and> raw = pre @ v @ suf
            \<and> (\<forall>c \<in> set pre. is_whitespace c) \<and> (\<forall>c \<in> set suf. is_whitespace c)
            \<and> v = trim raw
            \<and> get (records ! n) key = map_option trim (get (rows ! n) key))
         \<and> (v = [] \<or> (\<not> is_whitespace (hd v) \<and> \<not> is_whitespace (last v)))
         \<and> trim ''  Kigali  '' = ''Kigali''"
proof -
  from assms(1) obtain rows where src: "src = Complete rows" and recs: "records = map on_data rows"
    by (cases src) (auto simp: readCsvFile_def emit_error_def has_error_listener_def)
  from recs assms(2,3) have "(key, v) \<in> set (on_data (rows ! n))" by simp
  then obtain raw where raw: "(key, raw) \<in> set (rows ! n)" "v = trim raw"
    by (auto dest: on_data_field)
  from trim_decompose [of raw] raw(2) obtain pre suf where
    "raw = pre @ v @ suf" "\<forall>c \<in> set pre. is_whitespace c" "\<forall>c \<in> set suf. is_whitespace c"
    by auto
  moreover have "get (records ! n) key = map_option trim (get (rows ! n) key)"
    using recs assms(2) by (simp add: get_on_data)
  moreover have "v = [] \<or> (\<not> is_whitespace (hd v) \<and> \<not> is_whitespace (last v))"
    using raw(2) trim_hd [of raw] trim_last [of raw] by auto
  moreover have "trim ''  Kigali  '' = ''Kigali''"
    by (simp add: trim_def is_whitespace_def)
  ultimately show ?thesis using src recs raw by auto
qed


text \<open>
  C8 at the one-row file whose name cell is \<^verbatim>\<open>"  Kigali  "\<close>, and the trimming of
  a value between two no-break spaces.
\<close>

theorem loaded_fields_trimmed_witness:
  "snd (readCsvFile (Complete [[(''LocationName'', ''  Kigali  '')]]))
     = Resolved [[(''LocationName'', ''Kigali'')]]
   \<and> (0::nat) < length [[(''LocationName'', ''Kigali'')]]
   \<and> (''LocationName'', ''Kigali'') \<in> set ([[(''LocationName'', ''Kigali'')]] ! 0)
   \<and> \<not> is_whitespace (hd ''Kigali'') \<and> \<not> is_whitespace (last ''Kigali'')
   \<and> trim ''  Kigali  '' = ''Kigali''
   \<and> trim [CHR 0xA0, CHR ''K'', CHR ''i'', CHR ''g'', CHR ''a'', CHR ''l'', CHR ''i'', CHR 0xA0]
       = ''Kigali''"
proof -
  have b: "trim [CHR 0xA0, CHR ''K'', CHR ''i'', CHR ''g'', CHR ''a'', CHR ''l'', CHR ''i'', CHR 0xA0]
       = ''Kigali''"
    by code_simp
  have l: "snd (readCsvFile (Complete [[(''LocationName'', ''  Kigali  '')]]))
     = Resolved [[(''LocationName'', ''Kigali'')]]"
    by (simp add: readCsvFile_def on_data_def trim_def is_whitespace_def)
  have n: "(0::nat) < length [[(''LocationName'', ''Kigali'')]]" by simp
  have m: "(''LocationName'', ''Kigali'') \<in> set ([[(''LocationName'', ''Kigali'')]] ! 0)" by simp
  from loaded_fields_trimmed [OF l n m] l n m have
    "\<not> is_whitespace (hd ''Kigali'') \<and> \<not> is_whitespace (last ''Kigali'')
     \<and> trim ''  Kigali  '' = ''Kigali''"
    by simp
  with l n m b show ?thesis by blast
qed

section \<open>Claims about the location publisher\<close>

subsection \<open>The address of a request\<close>

lemma hex_value_digit: "n < 16 \<Longrightarrow> hex_value (hex_digit n) = n"
  by (auto simp: hex_value_def hex_digit_def Let_def)

lemma hex_digit_unreserved: "n < 16 \<Longrightarrow> uri_unreserved (hex_digit n)"
  by (auto simp: uri_unreserved_def hex_digit_def Let_def)

lemma percent_reserved: "\<not> uri_unreserved CHR ''%''"
  by (simp add: uri_unreserved_def)

lemma top_bits: "(of_char c :: nat) div 64 < 4"
proof -
  have "(of_char c :: nat) < 4 * 64" by simp
  then show ?thesis by (simp only: less_mult_imp_div_less)
qed

lemma nibbles: "b < 256 \<Longrightarrow> (b :: nat) div 16 < 16"
proof -
  assume "b < 256"
  then have "b < 16 * 16" by simp
  then show ?thesis by (simp only: less_mult_imp_div_less)
qed

lemma percent_decode_plain:
  "c \<noteq> CHR ''%'' \<Longrightarrow> percent_decode (c # s) = Literal c # percent_decode s"
  by (cases "(c # s)" rule: percent_decode.cases) auto

lemma percent_decode_percent:
  "b < 256 \<Longrightarrow> percent_decode (percent b @ s) = Escaped b # percent_decode s"
proof -
  assume b: "b < 256"
  then have "b div 16 < 16" by (rule nibbles)
  moreover have "b mod 16 < 16" by simp
  ultimately show ?thesis by (simp add: percent_def hex_value_digit)
qed

lemma utf8_decode_ascii: "b < 128 \<Longrightarrow> utf8_decode (Escaped b # ts) = char_of b # utf8_decode ts"
  by (cases "(Escaped b # ts)" rule: utf8_decode.cases) auto

lemma percent_decode_encode_char:
  "percent_decode (encode_char c @ s) = octets_of c @ percent_decode s"
proof (cases "uri_unreserved c")
  case True
  then have "c \<noteq> CHR ''%''" using percent_reserved by auto
  with True show ?thesis
    by (simp add: encode_char_def octets_of_def percent_decode_plain Let_def)
next
  case False
  have n: "(of_char c :: nat) < 256" by simp
  have a: "192 + (of_char c :: nat) div 64 < 256" using top_bits [of c] by simp
  have b: "128 + (of_char c :: nat) mod 64 < 256" by simp
  show ?thesis
  proof (cases "(of_char c :: nat) < 128")
    case True
    with False n show ?thesis
      by (simp add: encode_char_def octets_of_def percent_decode_percent Let_def)
  next
    case ge: False
    have "percent_decode ((percent (192 + (of_char c :: nat) div 64)
             @ percent (128 + (of_char c :: nat) mod 64)) @ s)
          = Escaped (192 + (of_char c :: nat) div 64)
            # Escaped (128 + (of_char c :: nat) mod 64) # percent_decode s"
      using percent_decode_percent [OF a] percent_decode_percent [OF b] by simp
    with False ge show ?thesis by (simp add: encode_char_def octets_of_def Let_def)
  qed
qed

lemma utf8_decode_octets_of: "utf8_decode (octets_of c @ ts) = c # utf8_decode ts"
proof -
  have "char_of ((of_char c :: nat) div 64 * 64 + (of_char c :: nat) mod 64) = c" by simp
  then show ?thesis by (auto simp: octets_of_def Let_def utf8_decode_ascii)
qed

lemma decode_encode: "decodeURIComponent (encodeURIComponent s) = s"
proof -
  have "utf8_decode (percent_decode (encodeURIComponent s @ t)) = s @ utf8_decode (percent_decode t)" for t
    by (induction s)
       (simp_all add: encodeURIComponent_def percent_decode_encode_char utf8_decode_octets_of)
  from this [of "[]"] show ?thesis by (simp add: decodeURIComponent_def)
qed

lemma encode_char_safe: "c' \<in> set (encode_char c) \<Longrightarrow> uri_unreserved c' \<or> c' = CHR ''%''"
proof -
  assume a: "c' \<in> set (encode_char c)"
  have h: "uri_unreserved (hex_digit (b div 16))" "uri_unreserved (hex_digit (b mod 16))"
    if "b < 256" for b :: nat
    using that by (simp_all add: hex_digit_unreserved nibbles)
  have n: "(of_char c :: nat) < 256" by simp
  have "192 + (of_char c :: nat) div 64 < 256" using top_bits [of c] by simp
  moreover have "128 + (of_char c :: nat) mod 64 < 256" by simp
  ultimately show ?thesis
    using a n h by (auto simp: encode_char_def percent_def Let_def split: if_splits)
qed

lemma encode_safe: "c \<in> set (encodeURIComponent s) \<Longrightarrow> c \<noteq> CHR ''&'' \<and> c \<noteq> CHR ''='' \<and> c \<noteq> CHR ''?''"
proof -
  assume "c \<in> set (encodeURIComponent s)"
  then obtain x where "c \<in> set (encode_char x)" by (auto simp: encodeURIComponent_def)
  then have "uri_unreserved c \<or> c = CHR ''%''" by (rule encode_char_safe)
  then show ?thesis by (auto simp: uri_unreserved_def)
qed

lemma parent_parameter_encoded:
  "parent_parameter (API_BASE_URL @ ''/saveLocation'' @ ''?parentCode='' @ encodeURIComponent pc) = Some pc"
proof -
  let ?e = "encodeURIComponent pc"
  have amp: "takeWhile (\<lambda>c. c \<noteq> CHR ''&'') ?e = ?e"
    using encode_safe [of _ pc] by (intro takeWhile_eq_all_conv [THEN iffD2]) blast
  have "dropWhile (\<lambda>c. c \<noteq> CHR ''?'') (API_BASE_URL @ ''/saveLocation'' @ ''?parentCode='' @ ?e)
        = ''?parentCode='' @ ?e"
    by (simp add: API_BASE_URL_def)
  then show ?thesis
    by (simp add: parent_parameter_def amp decode_encode)
qed

lemma parent_parameter_plain: "parent_parameter (API_BASE_URL @ ''/saveLocation'') = None"
  by (simp add: parent_parameter_def API_BASE_URL_def)

subsection \<open>Requests and traces\<close>

lemma posts_append: "posts (xs @ ys) = posts xs @ posts ys"
  by (induction xs rule: posts.induct) simp_all

lemma posts_attempt: "posts (attempt net n loc req) = [req]"
  by (simp add: attempt_def)

lemma posts_logs: "posts (map (\<lambda>x. Log (f x)) xs) = []"
  by (induction xs) simp_all

lemma build_request_level:
  "get loc ''Level'' = Some level \<Longrightarrow>
   build_request loc =
     Inr \<lparr>url = API_BASE_URL @ ''/saveLocation'' @
                 (case get loc ''ParentCode'' of
                    None \<Rightarrow> []
                  | Some pc \<Rightarrow> if length pc > 0 then ''?parentCode='' @ encodeURIComponent pc else []),
          body = \<lparr>locationCode = get loc ''LocationCode'', locationType = toUpperCase level,
                   locationName = get loc ''LocationName''\<rparr>\<rparr>"
  by (simp add: build_request_def call_toUpperCase_def)

lemma build_request_Inr:
  "build_request loc = Inr req \<Longrightarrow> \<exists>level. get loc ''Level'' = Some level"
  by (cases "get loc ''Level''") (simp_all add: build_request_def call_toUpperCase_def)

lemma build_request_no_level: "get loc ''Level'' = None \<Longrightarrow> build_request loc = Inl TypeError"
  by (simp add: build_request_def call_toUpperCase_def)

text \<open>
  Claim C4 (payload shape). The payload of every request built for a record is exactly
  the object with \<^verbatim>\<open>locationCode\<close> the record's code, \<^verbatim>\<open>locationName\<close> its name
  and \<^verbatim>\<open>locationType\<close> its level in upper case, the last stated for the levels whose
  upper-case form stays within the 8-bit code units; when the parent code is absent or
  empty the address is the bare \<^verbatim>\<open>saveLocation\<close> address and carries no parent
  parameter. For the row province, RW01, Kigali with an empty parent code the payload is
  RW01, PROVINCE, Kigali and the address has no parent parameter.
\<close>

theorem payload_shape:
  "(build_request loc = Inr req \<longrightarrow>
      (\<exists>level. get loc ''Level'' = Some level
         \<and> locationCode (body req) = get loc ''LocationCode''
         \<and> locationName (body req) = get loc ''LocationName''
         \<and> (upper_stays_8bit level \<longrightarrow> locationType (body req) = toUpperCase level)))
   \<and> (build_request loc = Inr req
        \<and> (get loc ''ParentCode'' = None \<or> get loc ''ParentCode'' = Some []) \<longrightarrow>
      url req = API_BASE_URL @ ''/saveLocation'' \<and> parent_parameter (url req) = None)
   \<and> build_request kigali =
       Inr \<lparr>url = ''http://localhost:8081/api/hec/location/saveLocation'',
            body = \<lparr>locationCode = Some ''RW01'', locationType = ''PROVINCE'',
                     locationName = Some ''Kigali''\<rparr>\<rparr>
   \<and> parent_parameter ''http://localhost:8081/api/hec/location/saveLocation'' = None"
proof -
  have "url req = API_BASE_URL @ ''/saveLocation'' \<and> parent_parameter (url req) = None"
    if r: "build_request loc = Inr req"
      and p: "get loc ''ParentCode'' = None \<or> get loc ''ParentCode'' = Some []"
  proof -
    from build_request_Inr [OF r] obtain level where l: "get loc ''Level'' = Some level" ..
    from build_request_level [OF l] r p have "url req = API_BASE_URL @ ''/saveLocation''"
      by auto
    then show ?thesis by (simp only: parent_parameter_plain)
  qed
  moreover have "\<exists>level. get loc ''Level'' = Some level
         \<and> locationCode (body req) = get loc ''LocationCode''
         \<and> locationName (body req) = get loc ''LocationName''
         \<and> (upper_stays_8bit level \<longrightarrow> locationType (body req) = toUpperCase level)"
    if r: "build_request loc = Inr req"
  proof -
    from build_request_Inr [OF r] obtain level where l: "get loc ''Level'' = Some level" ..
    from build_request_level [OF l] r l show ?thesis by auto
  qed
  moreover have "build_request kigali =
       Inr \<lparr>url = ''http://localhost:8081/api/hec/location/saveLocation'',
            body = \<lparr>locationCode = Some ''RW01'', locationType = ''PROVINCE'',
                     locationName = Some ''Kigali''\<rparr>\<rparr>"
    by code_simp
  moreover have "parent_parameter ''http://localhost:8081/api/hec/location/saveLocation'' = None"
    by code_simp
  ultimately show ?thesis by blast
qed

text \<open>
  C4 at the district row Nyarugenge, and the upper case of a level with an accented
  letter.
\<close>

theorem payload_shape_witness:
  "build_request nyarugenge =
     Inr \<lparr>url = ''http://localhost:8081/api/hec/location/saveLocation?parentCode=RW01'',
          body = \<lparr>locationCode = Some ''RW0101'', locationType = ''DISTRICT'',
                   locationName = Some ''Nyarugenge''\<rparr>\<rparr>
   \<and> get nyarugenge ''Level'' = Some ''district'' \<and> upper_stays_8bit ''district''
   \<and> toUpperCase ''district'' = ''DISTRICT''
   \<and> toUpperCase [CHR ''p'', CHR ''r'', CHR 0xE9, CHR ''f'', CHR ''e'', CHR ''t'']
       = [CHR ''P'', CHR ''R'', CHR 0xC9, CHR ''F'', CHR ''E'', CHR ''T'']
   \<and> (\<exists>level. get nyarugenge ''Level'' = Some level
         \<and> locationCode (body \<lparr>url = ''http://localhost:8081/api/hec/location/saveLocation?parentCode=RW01'',
                  body = \<lparr>locationCode = Some ''RW0101'', locationType = ''DISTRICT'',
                           locationName = Some ''Nyarugenge''\<rparr>\<rparr>)
             = get nyarugenge ''LocationCode'')"
proof -
  have b: "build_request nyarugenge =
     Inr \<lparr>url = ''http://localhost:8081/api/hec/location/saveLocation?parentCode=RW01'',
          body = \<lparr>locationCode = Some ''RW0101'', locationType = ''DISTRICT'',
                   locationName = Some ''Nyarugenge''\<rparr>\<rparr>"
    by code_simp
  have g: "get nyarugenge ''Level'' = Some ''district''" by code_simp
  have u: "upper_stays_8bit ''district''" by code_simp
  have d: "toUpperCase ''district'' = ''DISTRICT''" by code_simp
  have p: "toUpperCase [CHR ''p'', CHR ''r'', CHR 0xE9, CHR ''f'', CHR ''e'', CHR ''t'']
       = [CHR ''P'', CHR ''R'', CHR 0xC9, CHR ''F'', CHR ''E'', CHR ''T'']"
    by code_simp
  from payload_shape [of nyarugenge] b g u d p show ?thesis by blast
qed

text \<open>
  Claim C5 (parent parameter). For every record with a present, non-empty parent code,
  the request built for it is addressed to \<^verbatim>\<open>saveLocation?parentCode=\<close> followed by
  the parent code as \<^verbatim>\<open>encodeURIComponent\<close> writes it; read back as a query string, the \<^verbatim>\<open>parentCode\<close>
  parameter of the address is the parent code itself; and the payload consists of the
  code, the type and the name only.
\<close>

theorem parent_code_is_query_parameter:
  assumes "get loc ''ParentCode'' = Some pc" and "pc \<noteq> []" and "build_request loc = Inr req"
  shows "url req = API_BASE_URL @ ''/saveLocation'' @ ''?parentCode='' @ encodeURIComponent pc
         \<and> parent_parameter (url req) = Some pc
         \<and> body req = \<lparr>locationCode = get loc ''LocationCode'',
                         locationType = locationType (body req),
                         locationName = get loc ''LocationName''\<rparr>"
proof -
  from build_request_Inr [OF assms(3)] obtain level where l: "get loc ''Level'' = Some level" ..
  from build_request_level [OF l] assms have
    u: "url req = API_BASE_URL @ ''/saveLocation'' @ ''?parentCode='' @ encodeURIComponent pc"
    and b: "body req = \<lparr>locationCode = get loc ''LocationCode'',
                         locationType = locationType (body req),
                         locationName = get loc ''LocationName''\<rparr>"
    by auto
  from u have "parent_parameter (url req) = Some pc" by (simp only: parent_parameter_encoded)
  with u b show ?thesis by blast
qed

text \<open>
  C5 at the district row Nyarugenge with parent code RW01, and the encoding of a parent
  code with an accented letter.
\<close>

theorem parent_code_is_query_parameter_witness:
  "get nyarugenge ''ParentCode'' = Some ''RW01'' \<and> ''RW01'' \<noteq> []
   \<and> build_request nyarugenge =
     Inr \<lparr>url = ''http://localhost:8081/api/hec/location/saveLocation?parentCode=RW01'',
          body = \<lparr>locationCode = Some ''RW0101'', locationType = ''DISTRICT'',
                   locationName = Some ''Nyarugenge''\<rparr>\<rparr>
   \<and> parent_parameter ''http://localhost:8081/api/hec/location/saveLocation?parentCode=RW01''
       = Some ''RW01''
   \<and> encodeURIComponent [CHR ''R'', CHR 0xE9] = ''R%C3%A9''
   \<and> parent_parameter ''http://localhost:8081/api/hec/location/saveLocation?parentCode=R%C3%A9''
       = Some [CHR ''R'', CHR 0xE9]"
proof -
  have e: "encodeURIComponent [CHR ''R'', CHR 0xE9] = ''R%C3%A9''" by code_simp
  have d: "parent_parameter ''http://localhost:8081/api/hec/location/saveLocation?parentCode=R%C3%A9''
       = Some [CHR ''R'', CHR 0xE9]"
    by code_simp
  have g: "get nyarugenge ''ParentCode'' = Some ''RW01''" by code_simp
  have n: "''RW01'' \<noteq> []" by simp
  have b: "build_request nyarugenge =
     Inr \<lparr>url = ''http://localhost:8081/api/hec/location/saveLocation?parentCode=RW01'',
          body = \<lparr>locationCode = Some ''RW0101'', locationType = ''DISTRICT'',
                   locationName = Some ''Nyarugenge''\<rparr>\<rparr>"
    by code_simp
  from parent_code_is_query_parameter [OF g n b]
  have "parent_parameter
          (url \<lparr>url = ''http://localhost:8081/api/hec/location/saveLocation?parentCode=RW01'',
                body = \<lparr>locationCode = Some ''RW0101'', locationType = ''DISTRICT'',
                         locationName = Some ''Nyarugenge''\<rparr>\<rparr>) = Some ''RW01''"
    by blast
  then have "parent_parameter ''http://localhost:8081/api/hec/location/saveLocation?parentCode=RW01''
       = Some ''RW01''"
    by (simp only: request.select_convs)
  with g n b e d show ?thesis by blast
qed

lemma publish_all_levels:
  assumes "\<forall>r \<in> set batch. get r ''Level'' \<noteq> None"
  shows "snd (publish net n batch) = Inr ()
         \<and> map Inr (posts (fst (publish net n batch))) = map build_request batch"
  using assms
proof (induction batch arbitrary: n)
  case Nil
  show ?case by simp
next
  case (Cons loc rest)
  then obtain level where "get loc ''Level'' = Some level" by auto
  from build_request_level [OF this] obtain req where req: "build_request loc = Inr req"
    by blast
  from Cons have IH: "snd (publish net (Suc n) rest) = Inr ()
         \<and> map Inr (posts (fst (publish net (Suc n) rest))) = map build_request rest"
    by simp
  with req show ?case
    by (cases "publish net (Suc n) rest") (simp add: posts_append posts_attempt)
qed

lemma publish_never_axios:
  "snd (publish net n batch) \<noteq> Inl (AxiosError f)"
proof (induction batch arbitrary: n)
  case Nil
  show ?case by simp
next
  case (Cons loc rest)
  show ?case
  proof (cases "build_request loc")
    case (Inl e)
    then have "e = TypeError"
      by (auto simp: build_request_def call_toUpperCase_def split: option.splits)
    with Inl show ?thesis by simp
  next
    case (Inr req)
    with Cons [of "Suc n"] show ?thesis by (cases "publish net (Suc n) rest") simp
  qed
qed

lemma publish_logs:
  assumes "i < length batch" and "build_request (batch ! i) = Inr req"
    and "\<forall>r \<in> set batch. get r ''Level'' \<noteq> None"
  shows "set (attempt net (n + i) (batch ! i) req) \<subseteq> set (fst (publish net n batch))"
  using assms
proof (induction batch arbitrary: n i)
  case Nil
  then show ?case by simp
next
  case (Cons loc rest)
  then obtain level where "get loc ''Level'' = Some level" by auto
  from build_request_level [OF this] obtain req' where req': "build_request loc = Inr req'"
    by blast
  show ?case
  proof (cases i)
    case 0
    with Cons.prems req' show ?thesis
      by (cases "publish net (Suc n) rest") auto
  next
    case (Suc k)
    with Cons.prems have "set (attempt net (Suc n + k) (rest ! k) req)
        \<subseteq> set (fst (publish net (Suc n) rest))"
      by (intro Cons.IH) simp_all
    with Suc req' show ?thesis
      by (cases "publish net (Suc n) rest") auto
  qed
qed

text \<open>
  Claim C2 says that in every ordered batch a failed publish attempt leaves every later
  record attempted and the run unbroken. With a row that has no \<^verbatim>\<open>Level\<close> after the
  failed record this is false: the failure of the first record is caught and logged, then
  \<^verbatim>\<open>Level.toUpperCase()\<close> of the second record throws before its
  \<^verbatim>\<open>try\<close>; no request is sent for it and \<^verbatim>\<open>populateLocations\<close> ends with the
  TypeError.
\<close>

theorem publish_stops_at_missing_level_counterexample:
  "populateLocations unavailable [kigali, blank_row] =
     ([Log Starting, Log (Attempting kigali),
       Post \<lparr>url = ''http://localhost:8081/api/hec/location/saveLocation'',
             body = \<lparr>locationCode = Some ''RW01'', locationType = ''PROVINCE'',
                      locationName = Some ''Kigali''\<rparr>\<rparr>,
       Log (Rejected kigali 503 ''Service Unavailable''), Delay 100],
      Inl TypeError)"
  by code_simp

text \<open>
  Claim C2, amended (per-record publish isolation). For every batch in which every record
  has a \<^verbatim>\<open>Level\<close> property, and whatever the service answers to each call (a
  response, a status outside 2xx, no response, or a failure to set the request up):
  \<^verbatim>\<open>populateLocations\<close> completes without an error, one request is sent for every
  record of the ordered batch, in order, each attempt is in the trace with the log line of
  its outcome, and the trace ends with the line of the finished run.
\<close>

theorem publish_failures_isolated:
  assumes "\<forall>r \<in> set batch. get r ''Level'' \<noteq> None"
  shows "\<exists>ordered evs. sequencer batch = Inr ordered \<and> mset ordered = mset batch
           \<and> populateLocations net batch = (evs, Inr ())
           \<and> map Inr (posts evs) = map build_request ordered
           \<and> length (posts evs) = length batch
           \<and> last evs = Log Finished
           \<and> (\<forall>i req. i < length ordered \<and> build_request (ordered ! i) = Inr req
                 \<longrightarrow> set (attempt net i (ordered ! i) req) \<subseteq> set evs)"
proof -
  let ?ordered = "sort_by rank_difference batch"
  have s: "sequencer batch = Inr ?ordered" by (rule sequencer_pure)
  have m: "mset ?ordered = mset batch" by (rule mset_sort_by)
  from assms have lv: "\<forall>r \<in> set ?ordered. get r ''Level'' \<noteq> None"
    by (simp add: set_sort_by)
  from publish_all_levels [OF lv, of net 0] obtain evs where
    p: "publish net 0 ?ordered = (evs, Inr ())"
    and q: "map Inr (posts evs) = map build_request ?ordered"
    by (cases "publish net 0 ?ordered") auto
  let ?evs = "Log Starting # evs @ [Log Finished]"
  have r: "populateLocations net batch = (?evs, Inr ())"
    by (simp add: populateLocations_def s p)
  have "map Inr (posts ?evs) = map build_request ?ordered"
    using q by (simp add: posts_append)
  moreover from this have "length (posts ?evs) = length batch"
    using m by (metis length_map size_mset)
  moreover have "last ?evs = Log Finished" by simp
  moreover have "set (attempt net i (?ordered ! i) req) \<subseteq> set ?evs"
    if "i < length ?ordered" and "build_request (?ordered ! i) = Inr req" for i req
    using publish_logs [OF that lv, of net 0] p by auto
  ultimately show ?thesis using s m r by blast
qed

text \<open>C2 as amended, at two records against a service that rejects every request.\<close>

theorem publish_failures_isolated_witness:
  "get kigali ''Level'' \<noteq> None \<and> get nyarugenge ''Level'' \<noteq> None
   \<and> populateLocations unavailable [nyarugenge, kigali] =
     ([Log Starting,
       Log (Attempting kigali),
       Post \<lparr>url = ''http://localhost:8081/api/hec/location/saveLocation'',
             body = \<lparr>locationCode = Some ''RW01'', locationType = ''PROVINCE'',
                      locationName = Some ''Kigali''\<rparr>\<rparr>,
       Log (Rejected kigali 503 ''Service Unavailable''), Delay 100,
       Log (Attempting nyarugenge),
       Post \<lparr>url = ''http://localhost:8081/api/hec/location/saveLocation?parentCode=RW01'',
             body = \<lparr>locationCode = Some ''RW0101'', locationType = ''DISTRICT'',
                      locationName = Some ''Nyarugenge''\<rparr>\<rparr>,
       Log (Rejected nyarugenge 503 ''Service Unavailable''), Delay 100,
       Log Finished],
      Inr ())
   \<and> (\<exists>ordered evs. sequencer [nyarugenge, kigali] = Inr ordered
         \<and> populateLocations unavailable [nyarugenge, kigali] = (evs, Inr ())
         \<and> length (posts evs) = length [nyarugenge, kigali])"
proof -
  have a: "get kigali ''Level'' \<noteq> None" and b: "get nyarugenge ''Level'' \<noteq> None" by code_simp+
  then have h: "\<forall>r \<in> set [nyarugenge, kigali]. get r ''Level'' \<noteq> None" by simp
  have e: "populateLocations unavailable [nyarugenge, kigali] =
     ([Log Starting,
       Log (Attempting kigali),
       Post \<lparr>url = ''http://localhost:8081/api/hec/location/saveLocation'',
             body = \<lparr>locationCode = Some ''RW01'', locationType = ''PROVINCE'',
                      locationName = Some ''Kigali''\<rparr>\<rparr>,
       Log (Rejected kigali 503 ''Service Unavailable''), Delay 100,
       Log (Attempting nyarugenge),
       Post \<lparr>url = ''http://localhost:8081/api/hec/location/saveLocation?parentCode=RW01'',
             body = \<lparr>locationCode = Some ''RW0101'', locationType = ''DISTRICT'',
                      locationName = Some ''Nyarugenge''\<rparr>\<rparr>,
       Log (Rejected nyarugenge 503 ''Service Unavailable''), Delay 100,
       Log Finished],
      Inr ())"
    by code_simp
  from publish_failures_isolated [OF h, of unavailable] a b e show ?thesis by blast
qed

text \<open>
  Claim C3 (load failure is fatal). In every run in which the file stream fails, whatever
  had been parsed before and whatever the service would answer: no request is sent, the
  promise of the loader is never settled because the error is thrown as an uncaught
  exception, and the process ends with a non-zero exit status.
\<close>

theorem load_failure_is_fatal:
  "posts (fst (main (FileFailed rows msg) net)) = []
   \<and> snd (main (FileFailed rows msg) net) = Crashed (FileError msg)
   \<and> exit_status (snd (main (FileFailed rows msg) net)) \<noteq> 0
   \<and> snd (readCsvFile (FileFailed rows msg)) = Uncaught (FileError msg)"
  by (simp add: main_def readCsvFile_def emit_error_def has_error_listener_def exit_status_def
      posts_logs)

text \<open>C3 at a missing file.\<close>

theorem load_failure_is_fatal_witness:
  "main (FileFailed [] ''ENOENT: no such file or directory'') unavailable
     = ([], Crashed (FileError ''ENOENT: no such file or directory''))
   \<and> exit_status (snd (main (FileFailed [] ''ENOENT: no such file or directory'') unavailable)) = 1
   \<and> posts (fst (main (FileFailed [] ''ENOENT: no such file or directory'') unavailable)) = []"
proof -
  have "main (FileFailed [] ''ENOENT: no such file or directory'') unavailable
     = ([], Crashed (FileError ''ENOENT: no such file or directory''))"
    by code_simp
  moreover have "exit_status (Crashed (FileError ''ENOENT: no such file or directory'')) = 1"
    by code_simp
  ultimately show ?thesis
    using load_failure_is_fatal [of "[]" "''ENOENT: no such file or directory''" unavailable]
    by simp
qed

end
